theory Spec2Isabelle
  imports Complex_Main "HOL-Library.Log_Nat" "HOL-Library.Signed_Division"
    "HOL-Library.Monad_Syntax" "HOL-Library.Multiset"
begin

definition MATRIX_SIZE :: nat where
  "MATRIX_SIZE = 512"

section \<open>Single-precision arithmetic of the kernel\<close>

text \<open>
  The matrices hold C \<^verbatim>\<open>float\<close> values. A value is a finite number, an infinity or a
  NaN; a finite value is carried by the rational it denotes (the two zeros are one value
  here). An operation computes the exact result and rounds it to the nearest binary32
  number, ties to even: 24 significant bits, least exponent \<open>-149\<close>, overflow from
  \<open>2 ^ 128\<close> on.
\<close>

datatype f32 = Finite rat | PInf | NInf | NaN

definition pow2 :: "int \<Rightarrow> rat" where
  "pow2 e = (if 0 \<le> e then 2 ^ nat e else 1 / 2 ^ nat (- e))"

text \<open>\<open>ilog2 a\<close> is the integer part of the binary logarithm of a positive rational.\<close>

definition ilog2 :: "rat \<Rightarrow> int" where
  "ilog2 a = (if 1 \<le> a then bitlen \<lfloor>a\<rfloor> - 1 else - bitlen (\<lceil>1 / a\<rceil> - 1))"

text \<open>Rounding a non-negative rational to an integer, ties to even.\<close>

definition rne :: "rat \<Rightarrow> int" where
  "rne q = (let f = \<lfloor>q\<rfloor>; r = q - of_int f
            in if r < 1 / 2 then f
               else if 1 / 2 < r then f + 1
               else if even f then f else f + 1)"

definition round32 :: "rat \<Rightarrow> f32" where
  "round32 x =
     (if x = 0 then Finite 0
      else let a = \<bar>x\<bar>;
               e = max (ilog2 a - 23) (- 149);
               y = of_int (rne (a / pow2 e)) * pow2 e
           in if pow2 128 \<le> y then (if 0 < x then PInf else NInf)
              else Finite (if 0 < x then y else - y))"

fun fadd :: "f32 \<Rightarrow> f32 \<Rightarrow> f32" where
  "fadd (Finite x) (Finite y) = round32 (x + y)"
| "fadd NaN _ = NaN"
| "fadd _ NaN = NaN"
| "fadd PInf NInf = NaN"
| "fadd NInf PInf = NaN"
| "fadd PInf _ = PInf"
| "fadd _ PInf = PInf"
| "fadd NInf _ = NInf"
| "fadd _ NInf = NInf"

text \<open>The sign of an infinity times a non-zero value; zero times an infinity is a NaN.\<close>

definition inf_times :: "bool \<Rightarrow> rat \<Rightarrow> f32" where
  "inf_times neg x = (if x = 0 then NaN else if (x < 0) = neg then PInf else NInf)"

fun fmul :: "f32 \<Rightarrow> f32 \<Rightarrow> f32" where
  "fmul (Finite x) (Finite y) = round32 (x * y)"
| "fmul NaN _ = NaN"
| "fmul _ NaN = NaN"
| "fmul PInf (Finite y) = inf_times False y"
| "fmul NInf (Finite y) = inf_times True y"
| "fmul (Finite x) PInf = inf_times False x"
| "fmul (Finite x) NInf = inf_times True x"
| "fmul PInf PInf = PInf"
| "fmul NInf NInf = PInf"
| "fmul PInf NInf = NInf"
| "fmul NInf PInf = NInf"

text \<open>
  The fused multiply-add: \<open>x * y + z\<close> rounded once. With an operand that is not finite
  it is the sum of the product and \<open>z\<close>, in which nothing is rounded.
\<close>

fun ffma :: "f32 \<Rightarrow> f32 \<Rightarrow> f32 \<Rightarrow> f32" where
  "ffma (Finite x) (Finite y) (Finite z) = round32 (x * y + z)"
| "ffma (Finite x) (Finite y) z = z"
| "ffma x y z = fadd (fmul x y) z"

text \<open>
  What OpenCL leaves to the device in single precision. The program builds the kernel
  with no option and the source has no \<^verbatim>\<open>FP_CONTRACT\<close> pragma, so the compiler of the
  device may contract a product and a sum into one fused operation, or leave them two
  operations each rounded on its own. Support of denormalised numbers is optional: a
  device may read a denormalised operand as zero, and replace a denormalised result by
  zero.
\<close>

record fp_mode =
  fuses :: bool
  flushes_in :: bool
  flushes_out :: bool

definition ieee :: fp_mode where
  "ieee = \<lparr>fuses = False, flushes_in = False, flushes_out = False\<rparr>"

definition contracted :: fp_mode where
  "contracted = \<lparr>fuses = True, flushes_in = False, flushes_out = False\<rparr>"

fun flush :: "bool \<Rightarrow> f32 \<Rightarrow> f32" where
  "flush z (Finite x) = (if z \<and> \<bar>x\<bar> < 1 / 2 ^ 126 then Finite 0 else Finite x)"
| "flush z v = v"

text \<open>The statement \<^verbatim>\<open>sum += a * b\<close> as a device in the mode \<open>m\<close> computes it.\<close>

definition mac :: "fp_mode \<Rightarrow> f32 \<Rightarrow> f32 \<Rightarrow> f32 \<Rightarrow> f32" where
  "mac m acc a b =
     (let a' = flush (flushes_in m) a;
          b' = flush (flushes_in m) b;
          acc' = flush (flushes_in m) acc
      in if fuses m then flush (flushes_out m) (ffma a' b' acc')
         else flush (flushes_out m)
                (fadd acc' (flush (flushes_in m) (flush (flushes_out m) (fmul a' b')))))"

text \<open>Conversion of an \<^verbatim>\<open>int\<close> to \<^verbatim>\<open>float\<close>.\<close>

definition f32_of_int :: "int \<Rightarrow> f32" where
  "f32_of_int n = round32 (of_int n)"

section \<open>The kernel \<^verbatim>\<open>matmul\<close>\<close>

text \<open>
  The kernel's \<^verbatim>\<open>int\<close> is a signed 32-bit integer. An operation whose mathematical
  result does not fit is undefined behaviour: \<open>None\<close>.
\<close>

definition INT_MAX :: int where
  "INT_MAX = 2147483647"

definition int32 :: "int \<Rightarrow> int option" where
  "int32 x = (if - INT_MAX - 1 \<le> x \<and> x \<le> INT_MAX then Some x else None)"

definition imul :: "int \<Rightarrow> int \<Rightarrow> int option" where
  "imul a b = int32 (a * b)"

definition iadd :: "int \<Rightarrow> int \<Rightarrow> int option" where
  "iadd a b = int32 (a + b)"

text \<open>
  A buffer in global memory is the list of its elements. Reading or writing the element
  at offset \<open>i\<close> outside the buffer is undefined behaviour: \<open>None\<close>.
\<close>

definition load :: "f32 list \<Rightarrow> int \<Rightarrow> f32 option" where
  "load M i = (if 0 \<le> i \<and> nat i < length M then Some (M ! nat i) else None)"

definition store :: "f32 list \<Rightarrow> int \<Rightarrow> f32 \<Rightarrow> f32 list option" where
  "store M i v = (if 0 \<le> i \<and> nat i < length M then Some (M[nat i := v]) else None)"

text \<open>
  The loop \<^verbatim>\<open>for (int k = 0; k < N; k++) sum += A[row * N + k] * B[k * N + col];\<close>
  from the value \<open>k\<close> of its counter on, \<open>acc\<close> being the value of \<^verbatim>\<open>sum\<close>. \<open>mode k\<close>
  is the mode in which the device computes at the counter \<open>k\<close>.
\<close>

function matmul_loop ::
  "(int \<Rightarrow> fp_mode) \<Rightarrow> f32 list \<Rightarrow> f32 list \<Rightarrow> int \<Rightarrow> int \<Rightarrow> int \<Rightarrow> int \<Rightarrow> f32
     \<Rightarrow> f32 option" where
  "matmul_loop mode A B N row col k acc =
     (if k < N then
        do {
          rn \<leftarrow> imul row N;
          ia \<leftarrow> iadd rn k;
          a \<leftarrow> load A ia;
          kn \<leftarrow> imul k N;
          ib \<leftarrow> iadd kn col;
          b \<leftarrow> load B ib;
          k' \<leftarrow> iadd k 1;
          matmul_loop mode A B N row col k' (mac (mode k) acc a b)
        }
      else Some acc)"
  by pat_completeness auto
termination
  by (relation "measure (\<lambda>(mode, A, B, N, row, col, k, acc). nat (N - k))")
    (auto simp: iadd_def int32_def split: if_splits)

declare matmul_loop.simps [simp del]

text \<open>
  One work-item, with the global identifiers \<open>gid = (get_global_id(0), get_global_id(1))\<close>:
  it reads \<open>A\<close> and \<open>B\<close> and performs one store, returned as the offset into \<open>C\<close> and
  the value stored there. An identifier that does not fit the \<^verbatim>\<open>int\<close> it is
  assigned to is left undefined here (the conversion is implementation-defined).
\<close>

definition matmul ::
  "(int \<Rightarrow> fp_mode) \<Rightarrow> f32 list \<Rightarrow> f32 list \<Rightarrow> int \<Rightarrow> nat \<times> nat \<Rightarrow> (int \<times> f32) option" where
  "matmul mode A B N gid =
     do {
       row \<leftarrow> int32 (int (snd gid));
       col \<leftarrow> int32 (int (fst gid));
       acc \<leftarrow> matmul_loop mode A B N row col 0 (Finite 0);
       rn \<leftarrow> imul row N;
       ic \<leftarrow> iadd rn col;
       Some (ic, acc)
     }"

text \<open>
  \<^verbatim>\<open>clEnqueueNDRangeKernel\<close> over a two-dimensional global size runs one work-item for
  every pair of identifiers below the sizes. The device is free in the order and may
  run them at the same time; a work-item reads nothing another one writes and ends
  with its only store, so a run of the launch is a list of work-items run one after
  the other. \<open>run_items\<close> runs such a list on the output buffer and returns the buffer
  together with the offsets stored to, in the order of the stores. \<open>modes g k\<close> is the
  mode in which the device computes in the work-item \<open>g\<close> at the counter \<open>k\<close>.
\<close>

definition global_ids :: "nat \<Rightarrow> nat \<Rightarrow> (nat \<times> nat) list" where
  "global_ids g0 g1 = concat (map (\<lambda>y. map (\<lambda>x. (x, y)) [0..<g0]) [0..<g1])"

fun run_items ::
  "(nat \<times> nat \<Rightarrow> int \<Rightarrow> fp_mode) \<Rightarrow> f32 list \<Rightarrow> f32 list \<Rightarrow> int \<Rightarrow> (nat \<times> nat) list
     \<Rightarrow> f32 list \<times> int list \<Rightarrow> (f32 list \<times> int list) option" where
  "run_items modes A B N [] m = Some m"
| "run_items modes A B N (g # gs) m =
     do {
       w \<leftarrow> matmul (modes g) A B N g;
       C' \<leftarrow> store (fst m) (fst w) (snd w);
       run_items modes A B N gs (C', snd m @ [fst w])
     }"

text \<open>
  The reference: the product computed by three nested loops over \<open>i\<close>, \<open>j\<close> and \<open>k\<close>,
  row-major, in single precision, every product and every sum rounded on its own and
  no denormalised number flushed. \<open>dot_with mode\<close> is the same accumulation for a
  cell in the modes \<open>mode\<close> gives, \<open>exact_dot\<close> is the sum itself, of the numbers the
  elements denote, and \<open>abs_dot\<close> the sum of the magnitudes of the products.
\<close>

definition dot_ref :: "f32 list \<Rightarrow> f32 list \<Rightarrow> nat \<Rightarrow> nat \<Rightarrow> nat \<Rightarrow> f32" where
  "dot_ref A B n i j =
     foldl (\<lambda>acc k. fadd acc (fmul (A ! (i * n + k)) (B ! (k * n + j)))) (Finite 0) [0..<n]"

definition dot_with ::
  "(int \<Rightarrow> fp_mode) \<Rightarrow> f32 list \<Rightarrow> f32 list \<Rightarrow> nat \<Rightarrow> nat \<Rightarrow> nat \<Rightarrow> f32" where
  "dot_with mode A B n i j =
     foldl (\<lambda>acc k. mac (mode (int k)) acc (A ! (i * n + k)) (B ! (k * n + j))) (Finite 0) [0..<n]"

definition exact_dot :: "rat list \<Rightarrow> rat list \<Rightarrow> nat \<Rightarrow> nat \<Rightarrow> nat \<Rightarrow> rat" where
  "exact_dot a b n i j = (\<Sum>k<n. a ! (i * n + k) * b ! (k * n + j))"

definition abs_dot :: "rat list \<Rightarrow> rat list \<Rightarrow> nat \<Rightarrow> nat \<Rightarrow> nat \<Rightarrow> rat" where
  "abs_dot a b n i j = (\<Sum>k<n. \<bar>a ! (i * n + k) * b ! (k * n + j)\<bar>)"

definition matmul_ref :: "f32 list \<Rightarrow> f32 list \<Rightarrow> nat \<Rightarrow> f32 list" where
  "matmul_ref A B n = concat (map (\<lambda>i. map (\<lambda>j. dot_ref A B n i j) [0..<n]) [0..<n])"

section \<open>The host program\<close>

subsection \<open>The C library\<close>

text \<open>
  \<^verbatim>\<open>rand\<close> is a function of a hidden state: it returns a value and the next state.
  \<^verbatim>\<open>srand seed\<close> sets the state; a program that never calls \<^verbatim>\<open>srand\<close> starts in
  the state \<^verbatim>\<open>srand 1\<close> sets (ISO C, 7.22.2.2). The generator and the conversion
  \<^verbatim>\<open>%f\<close> of \<^verbatim>\<open>printf\<close> belong to the C library, not to the program: they are
  parameters.
\<close>

record 's libc =
  rand :: "'s \<Rightarrow> int \<times> 's"
  srand :: "nat \<Rightarrow> 's"
  printf_f :: "f32 \<Rightarrow> string"

text \<open>The generator ISO C gives as its example, with a 32-bit state.\<close>

definition sample_rand :: "nat \<Rightarrow> int \<times> nat" where
  "sample_rand s =
     (let s' = (s * 1103515245 + 12345) mod 4294967296
      in (int ((s' div 65536) mod 32768), s'))"

definition sample_libc :: "nat libc" where
  "sample_libc = \<lparr>rand = sample_rand, srand = (\<lambda>seed. seed), printf_f = (\<lambda>v. ''0.000000'')\<rparr>"

text \<open>The conversion \<^verbatim>\<open>%d\<close> of \<^verbatim>\<open>printf\<close>.\<close>

fun digits :: "nat \<Rightarrow> string" where
  "digits n =
     (if n < 10 then [''0123456789'' ! n]
      else digits (n div 10) @ [''0123456789'' ! (n mod 10)])"

declare digits.simps [simp del]

definition printf_d :: "int \<Rightarrow> string" where
  "printf_d i = (if i < 0 then ''-'' @ digits (nat (- i)) else digits (nat i))"

subsection \<open>Runs\<close>

text \<open>
  What a run of the program shows: the host allocations, the calls of the compute API
  with the arguments the program passes, and the text written to the two streams.
  \<open>MA\<close>, \<open>MB\<close> and \<open>MC\<close> name the three matrices, as host arrays and as device
  buffers. A buffer is created with its flags and its size in bytes; a write and a read
  carry the buffer, the blocking flag and the size; the build-info query carries the
  size of the program's buffer; the launch carries the number of dimensions, the
  global and the local size.
\<close>

datatype mat = MA | MB | MC

datatype mem_flags = CL_MEM_READ_ONLY | CL_MEM_WRITE_ONLY

datatype api_call =
    clGetPlatformIDs
  | clGetDeviceIDs
  | clCreateContext
  | clCreateCommandQueue
  | clCreateBuffer mat mem_flags nat
  | clEnqueueWriteBuffer mat bool nat
  | clCreateProgramWithSource
  | clBuildProgram
  | clGetProgramBuildInfo nat
  | clCreateKernel string
  | clSetKernelArg nat
  | clEnqueueNDRangeKernel nat "nat list" "nat list"
  | clEnqueueReadBuffer mat bool nat
  | clReleaseMemObject mat
  | clReleaseKernel
  | clReleaseProgram
  | clReleaseCommandQueue
  | clReleaseContext

datatype event = Malloc mat nat | Call api_call | Stderr string | Stdout string | Free mat

text \<open>
  A process ends with an exit code, or its behaviour is undefined. A run is the events
  so far and the outcome, \<open>None\<close> while the process still runs.
\<close>

datatype outcome = Exit int | Undefined

type_synonym run = "event list \<times> outcome option"

definition skip :: run where
  "skip = ([], None)"

definition emit :: "event \<Rightarrow> run" where
  "emit e = ([e], None)"

definition call :: "api_call \<Rightarrow> run" where
  "call c = ([Call c], None)"

definition exit :: "int \<Rightarrow> run" where
  "exit code = ([], Some (Exit code))"

definition undefined_behaviour :: run where
  "undefined_behaviour = ([], Some Undefined)"

text \<open>Sequential composition: what follows an ended process does not happen.\<close>

definition seq :: "run \<Rightarrow> run \<Rightarrow> run" where
  "seq p q = (case snd p of None \<Rightarrow> (fst p @ fst q, snd q) | Some out \<Rightarrow> p)"

fun seqs :: "run list \<Rightarrow> run" where
  "seqs [] = skip"
| "seqs (p # ps) = seq p (seqs ps)"

subsection \<open>The environment of a run\<close>

text \<open>
  The status every API call returns, the text of the log the compiler of the device
  wrote when it built the program, the indeterminate contents of memory nobody has
  written yet (the host arrays after \<^verbatim>\<open>malloc\<close>, the device buffer \<open>C\<close> after its
  creation), by offset, and the mode in which the device computes each step of each
  work-item.
  The host allocations are taken to succeed: the program does not check them.
\<close>

record env =
  status :: "api_call \<Rightarrow> int"
  build_log :: string
  host_uninit :: "mat \<Rightarrow> nat \<Rightarrow> f32"
  device_uninit :: "nat \<Rightarrow> f32"
  fp_modes :: "nat \<times> nat \<Rightarrow> int \<Rightarrow> fp_mode"

definition CL_SUCCESS :: int where
  "CL_SUCCESS = 0"

text \<open>
  The line that \<^verbatim>\<open>fprintf(stderr, "Error during operation '%s': %d\n", operation, err)\<close>
  writes.
\<close>

definition error_line :: "string \<Rightarrow> int \<Rightarrow> string" where
  "error_line operation err =
     ''Error during operation '' @ [CHR 0x27] @ operation @ [CHR 0x27] @ '': '' @ printf_d err
       @ ''\<newline>''"

definition checkError :: "int \<Rightarrow> string \<Rightarrow> run" where
  "checkError err operation =
     (if err \<noteq> CL_SUCCESS
      then seq (emit (Stderr (error_line operation err))) (exit 1)
      else skip)"

subsection \<open>Initialisation of the matrices\<close>

text \<open>
  \<^verbatim>\<open>for (int i = 0; i < N * N; i++) { A[i] = rand() % 100; B[i] = rand() % 100; }\<close>
  from the value \<open>i\<close> of its counter on, \<open>n\<close> being \<open>N * N\<close> and \<open>s\<close> the state of the
  generator. \<^verbatim>\<open>%\<close> truncates towards zero.
\<close>

function fill_loop ::
  "('s \<Rightarrow> int \<times> 's) \<Rightarrow> nat \<Rightarrow> nat \<Rightarrow> 's \<Rightarrow> f32 list \<Rightarrow> f32 list \<Rightarrow> f32 list \<times> f32 list \<times> 's" where
  "fill_loop rnd n i s A B =
     (if i < n then
        (let (r1, s1) = rnd s;
             (r2, s2) = rnd s1
         in fill_loop rnd n (Suc i) s2 (A[i := f32_of_int (r1 smod 100)])
              (B[i := f32_of_int (r2 smod 100)]))
      else (A, B, s))"
  by pat_completeness auto
termination
  by (relation "measure (\<lambda>(rnd, n, i, s, A, B). n - i)") auto

declare fill_loop.simps [simp del]

definition initialise :: "'s libc \<Rightarrow> env \<Rightarrow> f32 list \<times> f32 list \<times> 's" where
  "initialise libc env =
     (let n = MATRIX_SIZE * MATRIX_SIZE
      in fill_loop (rand libc) n 0 (srand libc 1)
           (map (host_uninit env MA) [0..<n]) (map (host_uninit env MB) [0..<n]))"

subsection \<open>The device\<close>

text \<open>
  The device buffers \<open>A\<close> and \<open>B\<close> hold what the two writes copied from the host
  arrays. The launch runs the kernel with \<open>N\<close> over the global size \<open>{N, N}\<close>; the read
  copies the device buffer \<open>C\<close> into the host array \<open>C\<close>.
\<close>

definition device_result :: "'s libc \<Rightarrow> env \<Rightarrow> f32 list option" where
  "device_result libc env =
     (let n = MATRIX_SIZE * MATRIX_SIZE;
          (A, B, s) = initialise libc env
      in map_option fst
           (run_items (fp_modes env) A B (int MATRIX_SIZE)
              (global_ids MATRIX_SIZE MATRIX_SIZE) (map (device_uninit env) [0..<n], [])))"

definition run_kernel :: "f32 list option \<Rightarrow> run" where
  "run_kernel dev = (case dev of None \<Rightarrow> undefined_behaviour | Some C \<Rightarrow> skip)"

subsection \<open>The build log\<close>

text \<open>
  \<^verbatim>\<open>clGetProgramBuildInfo(program, device, CL_PROGRAM_BUILD_LOG, sizeof(buffer), buffer, NULL)\<close>
  with a buffer of \<open>sz\<close> bytes on the stack that nothing has written. When the query
  succeeds the buffer holds the log and its terminator, which takes that they fit;
  otherwise it keeps its indeterminate contents: \<open>None\<close>. The program drops the status
  of the query and prints the buffer with the conversion \<^verbatim>\<open>%s\<close>: the use of the
  indeterminate contents of an automatic array, in which nothing bounds the string, is
  undefined behaviour.
\<close>

definition build_info_buffer :: "env \<Rightarrow> nat \<Rightarrow> string option" where
  "build_info_buffer env sz =
     (if status env (clGetProgramBuildInfo sz) = CL_SUCCESS \<and> length (build_log env) < sz
      then Some (build_log env) else None)"

definition print_build_log :: "string option \<Rightarrow> run" where
  "print_build_log buffer =
     (case buffer of
        None \<Rightarrow> undefined_behaviour
      | Some str \<Rightarrow> emit (Stderr (''CL Compilation failed:\<newline>'' @ str @ ''\<newline>'')))"

subsection \<open>Printing\<close>

text \<open>\<^verbatim>\<open>printf("%f ", C[i * N + j])\<close> and the two loops around it.\<close>

definition print_cell :: "'s libc \<Rightarrow> f32 list \<Rightarrow> nat \<Rightarrow> nat \<Rightarrow> nat \<Rightarrow> run" where
  "print_cell libc C N i j =
     (case load C (int (i * N + j)) of
        None \<Rightarrow> undefined_behaviour
      | Some v \<Rightarrow> emit (Stdout (printf_f libc v @ '' '')))"

definition print_row :: "'s libc \<Rightarrow> f32 list \<Rightarrow> nat \<Rightarrow> nat \<Rightarrow> run" where
  "print_row libc C N i =
     seq (seqs (map (print_cell libc C N i) [0..<10])) (emit (Stdout ''\<newline>''))"

definition print_result :: "'s libc \<Rightarrow> f32 list option \<Rightarrow> nat \<Rightarrow> run" where
  "print_result libc dev N =
     (case dev of
        None \<Rightarrow> undefined_behaviour
      | Some C \<Rightarrow> seqs (map (print_row libc C N) [0..<10]))"

subsection \<open>\<^verbatim>\<open>main\<close>\<close>

text \<open>
  The statements of \<^verbatim>\<open>main\<close> in their order. \<open>N\<close> is 512 and \<open>bytes\<close> is
  \<open>N * N * sizeof(float)\<close>; every status comes from the environment. The kernel
  runs on the device between its enqueueing and the read of the result.
\<close>

definition main :: "'s libc \<Rightarrow> env \<Rightarrow> run" where
  "main libc env =
     (let N = MATRIX_SIZE;
          bytes = N * N * 4;
          dev = device_result libc env
      in seqs [
        emit (Malloc MA bytes),
        emit (Malloc MB bytes),
        emit (Malloc MC bytes),
        call clGetPlatformIDs,
        checkError (status env clGetPlatformIDs) ''Getting platform'',
        call clGetDeviceIDs,
        checkError (status env clGetDeviceIDs) ''Getting device'',
        call clCreateContext,
        checkError (status env clCreateContext) ''Creating context'',
        call clCreateCommandQueue,
        checkError (status env clCreateCommandQueue) ''Creating command queue'',
        call (clCreateBuffer MA CL_MEM_READ_ONLY bytes),
        checkError (status env (clCreateBuffer MA CL_MEM_READ_ONLY bytes)) ''Creating buffer A'',
        call (clCreateBuffer MB CL_MEM_READ_ONLY bytes),
        checkError (status env (clCreateBuffer MB CL_MEM_READ_ONLY bytes)) ''Creating buffer B'',
        call (clCreateBuffer MC CL_MEM_WRITE_ONLY bytes),
        checkError (status env (clCreateBuffer MC CL_MEM_WRITE_ONLY bytes)) ''Creating buffer C'',
        call (clEnqueueWriteBuffer MA True bytes),
        checkError (status env (clEnqueueWriteBuffer MA True bytes)) ''Copying A to device'',
        call (clEnqueueWriteBuffer MB True bytes),
        checkError (status env (clEnqueueWriteBuffer MB True bytes)) ''Copying B to device'',
        call clCreateProgramWithSource,
        checkError (status env clCreateProgramWithSource) ''Creating program'',
        call clBuildProgram,
        (if status env clBuildProgram \<noteq> CL_SUCCESS
         then seqs [
           call (clGetProgramBuildInfo 10240),
           print_build_log (build_info_buffer env 10240),
           exit 1]
         else skip),
        call (clCreateKernel ''matmul''),
        checkError (status env (clCreateKernel ''matmul'')) ''Creating kernel'',
        call (clSetKernelArg 0),
        checkError (status env (clSetKernelArg 0)) ''Setting kernel arg 0'',
        call (clSetKernelArg 1),
        checkError (status env (clSetKernelArg 1)) ''Setting kernel arg 1'',
        call (clSetKernelArg 2),
        checkError (status env (clSetKernelArg 2)) ''Setting kernel arg 2'',
        call (clSetKernelArg 3),
        checkError (status env (clSetKernelArg 3)) ''Setting kernel arg 3'',
        call (clEnqueueNDRangeKernel 2 [N, N] [16, 16]),
        checkError (status env (clEnqueueNDRangeKernel 2 [N, N] [16, 16])) ''Enqueueing kernel'',
        run_kernel dev,
        call (clEnqueueReadBuffer MC True bytes),
        checkError (status env (clEnqueueReadBuffer MC True bytes)) ''Reading result'',
        print_result libc dev N,
        call (clReleaseMemObject MA),
        call (clReleaseMemObject MB),
        call (clReleaseMemObject MC),
        call clReleaseKernel,
        call clReleaseProgram,
        call clReleaseCommandQueue,
        call clReleaseContext,
        emit (Free MA),
        emit (Free MB),
        emit (Free MC),
        exit 0])"

section \<open>What a run shows\<close>

text \<open>The text a run writes to each stream.\<close>

fun stderr_text :: "event \<Rightarrow> string" where
  "stderr_text (Stderr t) = t"
| "stderr_text _ = []"

fun stdout_text :: "event \<Rightarrow> string" where
  "stdout_text (Stdout t) = t"
| "stdout_text _ = []"

definition stderr_of :: "event list \<Rightarrow> string" where
  "stderr_of es = concat (map stderr_text es)"

definition stdout_of :: "event list \<Rightarrow> string" where
  "stdout_of es = concat (map stdout_text es)"

text \<open>
  The calls whose status \<^verbatim>\<open>main\<close> passes to \<^verbatim>\<open>checkError\<close>, with the name of the
  operation it passes along, in the order of the program.
\<close>

definition checked_calls :: "(api_call \<times> string) list" where
  "checked_calls =
     [(clGetPlatformIDs, ''Getting platform''),
      (clGetDeviceIDs, ''Getting device''),
      (clCreateContext, ''Creating context''),
      (clCreateCommandQueue, ''Creating command queue''),
      (clCreateBuffer MA CL_MEM_READ_ONLY 1048576, ''Creating buffer A''),
      (clCreateBuffer MB CL_MEM_READ_ONLY 1048576, ''Creating buffer B''),
      (clCreateBuffer MC CL_MEM_WRITE_ONLY 1048576, ''Creating buffer C''),
      (clEnqueueWriteBuffer MA True 1048576, ''Copying A to device''),
      (clEnqueueWriteBuffer MB True 1048576, ''Copying B to device''),
      (clCreateProgramWithSource, ''Creating program''),
      (clCreateKernel ''matmul'', ''Creating kernel''),
      (clSetKernelArg 0, ''Setting kernel arg 0''),
      (clSetKernelArg 1, ''Setting kernel arg 1''),
      (clSetKernelArg 2, ''Setting kernel arg 2''),
      (clSetKernelArg 3, ''Setting kernel arg 3''),
      (clEnqueueNDRangeKernel 2 [512, 512] [16, 16], ''Enqueueing kernel''),
      (clEnqueueReadBuffer MC True 1048576, ''Reading result'')]"

text \<open>Every call the program checks, in either way, succeeds.\<close>

definition all_succeed :: "env \<Rightarrow> bool" where
  "all_succeed env =
     (list_all (\<lambda>p. status env (fst p) = CL_SUCCESS) checked_calls
      \<and> status env clBuildProgram = CL_SUCCESS)"

text \<open>The events of the two printing loops over the host array \<open>C\<close>.\<close>

definition row_events :: "'s libc \<Rightarrow> f32 list \<Rightarrow> nat \<Rightarrow> nat \<Rightarrow> event list" where
  "row_events libc C N i =
     map (\<lambda>j. Stdout (printf_f libc (C ! (i * N + j)) @ '' '')) [0..<10] @ [Stdout ''\<newline>'']"

definition print_events :: "'s libc \<Rightarrow> f32 list \<Rightarrow> nat \<Rightarrow> event list" where
  "print_events libc C N = concat (map (row_events libc C N) [0..<10])"

subsection \<open>Resources\<close>

text \<open>
  The resources the program acquires, the event that acquires and the event that
  releases each, and the resources an event uses: the handles and host pointers the
  program passes to the call (the printing loops read the host array \<open>C\<close>).
\<close>

datatype resource = HostMem mat | Context | Queue | Buffer mat | Program | Kernel

fun acquires :: "event \<Rightarrow> resource option" where
  "acquires (Malloc m n) = Some (HostMem m)"
| "acquires (Call clCreateContext) = Some Context"
| "acquires (Call clCreateCommandQueue) = Some Queue"
| "acquires (Call (clCreateBuffer m f n)) = Some (Buffer m)"
| "acquires (Call clCreateProgramWithSource) = Some Program"
| "acquires (Call (clCreateKernel k)) = Some Kernel"
| "acquires _ = None"

fun releases :: "event \<Rightarrow> resource option" where
  "releases (Free m) = Some (HostMem m)"
| "releases (Call (clReleaseMemObject m)) = Some (Buffer m)"
| "releases (Call clReleaseKernel) = Some Kernel"
| "releases (Call clReleaseProgram) = Some Program"
| "releases (Call clReleaseCommandQueue) = Some Queue"
| "releases (Call clReleaseContext) = Some Context"
| "releases _ = None"

fun uses :: "event \<Rightarrow> resource list" where
  "uses (Call clCreateCommandQueue) = [Context]"
| "uses (Call (clCreateBuffer m f n)) = [Context]"
| "uses (Call (clEnqueueWriteBuffer m b n)) = [Queue, Buffer m, HostMem m]"
| "uses (Call clCreateProgramWithSource) = [Context]"
| "uses (Call clBuildProgram) = [Program]"
| "uses (Call (clGetProgramBuildInfo n)) = [Program]"
| "uses (Call (clCreateKernel k)) = [Program]"
| "uses (Call (clSetKernelArg i)) =
     (if i = 0 then [Kernel, Buffer MA] else if i = 1 then [Kernel, Buffer MB]
      else if i = 2 then [Kernel, Buffer MC] else [Kernel])"
| "uses (Call (clEnqueueNDRangeKernel d g l)) = [Queue, Kernel, Buffer MA, Buffer MB, Buffer MC]"
| "uses (Call (clEnqueueReadBuffer m b n)) = [Queue, Buffer m, HostMem m]"
| "uses (Call (clReleaseMemObject m)) = [Buffer m]"
| "uses (Call clReleaseKernel) = [Kernel]"
| "uses (Call clReleaseProgram) = [Program]"
| "uses (Call clReleaseCommandQueue) = [Queue]"
| "uses (Call clReleaseContext) = [Context]"
| "uses (Stdout t) = [HostMem MC]"
| "uses (Free m) = [HostMem m]"
| "uses _ = []"

text \<open>The resource each API resource was created from.\<close>

fun created_from :: "resource \<Rightarrow> resource list" where
  "created_from Queue = [Context]"
| "created_from (Buffer m) = [Context]"
| "created_from Program = [Context]"
| "created_from Kernel = [Program]"
| "created_from _ = []"

definition acquired :: "event list \<Rightarrow> resource list" where
  "acquired es = List.map_filter acquires es"

definition released :: "event list \<Rightarrow> resource list" where
  "released es = List.map_filter releases es"

fun is_api :: "resource \<Rightarrow> bool" where
  "is_api (HostMem m) = False"
| "is_api _ = True"

text \<open>No event uses a resource that an earlier event released.\<close>

fun no_use_after_release :: "event list \<Rightarrow> bool" where
  "no_use_after_release [] = True"
| "no_use_after_release (e # es) =
     ((case releases e of
         None \<Rightarrow> True
       | Some r \<Rightarrow> list_all (\<lambda>e'. r \<notin> set (uses e')) es)
      \<and> no_use_after_release es)"

text \<open>\<open>before xs a b\<close>: \<open>a\<close> occurs in \<open>xs\<close> and \<open>b\<close> occurs after its first occurrence.\<close>

definition before :: "'a list \<Rightarrow> 'a \<Rightarrow> 'a \<Rightarrow> bool" where
  "before xs a b = (a \<in> set xs \<and> b \<in> set (tl (dropWhile (\<lambda>x. x \<noteq> a) xs)))"

subsection \<open>The command queue\<close>

text \<open>
  The program creates the queue with no property: commands run in the order of their
  enqueueing. An enqueueing call returns once the command is in the queue; a read or a
  write with the blocking flag returns once its command has run, hence once every
  command before it has. \<open>in_flight\<close> is the list of the commands that the calls of a run
  have enqueued and not awaited.
\<close>

fun queue_step :: "api_call list \<Rightarrow> event \<Rightarrow> api_call list" where
  "queue_step q (Call (clEnqueueWriteBuffer m blocking n)) =
     (if blocking then [] else q @ [clEnqueueWriteBuffer m blocking n])"
| "queue_step q (Call (clEnqueueReadBuffer m blocking n)) =
     (if blocking then [] else q @ [clEnqueueReadBuffer m blocking n])"
| "queue_step q (Call (clEnqueueNDRangeKernel d g l)) = q @ [clEnqueueNDRangeKernel d g l]"
| "queue_step q _ = q"

definition in_flight :: "event list \<Rightarrow> api_call list" where
  "in_flight es = foldl queue_step [] es"

text \<open>The calls of a run that enqueue a command.\<close>

fun enqueued :: "event \<Rightarrow> api_call list" where
  "enqueued (Call (clEnqueueWriteBuffer m b n)) = [clEnqueueWriteBuffer m b n]"
| "enqueued (Call (clEnqueueNDRangeKernel d g l)) = [clEnqueueNDRangeKernel d g l]"
| "enqueued (Call (clEnqueueReadBuffer m b n)) = [clEnqueueReadBuffer m b n]"
| "enqueued _ = []"

definition enqueue_calls :: "event list \<Rightarrow> api_call list" where
  "enqueue_calls es = concat (map enqueued es)"

text \<open>The events of a run up to and including the call \<open>c\<close>.\<close>

definition until_call :: "api_call \<Rightarrow> event list \<Rightarrow> event list" where
  "until_call c es = takeWhile (\<lambda>e. e \<noteq> Call c) es @ [Call c]"

subsection \<open>The values the generator returns\<close>

text \<open>
  \<open>rand_state rnd s k\<close> is the state of the generator after \<open>k\<close> calls from the state
  \<open>s\<close>, \<open>rand_value rnd s k\<close> the value the next call returns. \<open>initial_A\<close> and
  \<open>initial_B\<close> are the matrices in terms of these values: the loop assigns the values
  of the calls \<open>2 * k\<close> and \<open>2 * k + 1\<close> to the elements at offset \<open>k\<close>.
\<close>

definition rand_state :: "('s \<Rightarrow> int \<times> 's) \<Rightarrow> 's \<Rightarrow> nat \<Rightarrow> 's" where
  "rand_state rnd s k = ((\<lambda>t. snd (rnd t)) ^^ k) s"

definition rand_value :: "('s \<Rightarrow> int \<times> 's) \<Rightarrow> 's \<Rightarrow> nat \<Rightarrow> int" where
  "rand_value rnd s k = fst (rnd (rand_state rnd s k))"

definition initial_A :: "'s libc \<Rightarrow> f32 list" where
  "initial_A libc =
     map (\<lambda>k. f32_of_int (rand_value (rand libc) (srand libc 1) (2 * k) smod 100))
       [0..<MATRIX_SIZE * MATRIX_SIZE]"

definition initial_B :: "'s libc \<Rightarrow> f32 list" where
  "initial_B libc =
     map (\<lambda>k. f32_of_int (rand_value (rand libc) (srand libc 1) (2 * k + 1) smod 100))
       [0..<MATRIX_SIZE * MATRIX_SIZE]"

subsection \<open>Environments of the examples\<close>

text \<open>
  An environment in which every call succeeds, one in which the platform enumeration
  fails, one in which the build fails, one that differs from the first in what
  uninitialised memory holds and in the modes of the device, and one in which the build
  fails with a log of 20000 characters, which the query of the log refuses with
  \<^verbatim>\<open>CL_INVALID_VALUE\<close>.
\<close>

definition ok_env :: env where
  "ok_env = \<lparr>status = (\<lambda>c. CL_SUCCESS), build_log = [],
     host_uninit = (\<lambda>m k. NaN), device_uninit = (\<lambda>k. NaN), fp_modes = (\<lambda>g k. ieee)\<rparr>"

definition platform_fail_env :: env where
  "platform_fail_env = ok_env\<lparr>status := (\<lambda>c. if c = clGetPlatformIDs then - 1 else CL_SUCCESS)\<rparr>"

definition build_fail_env :: env where
  "build_fail_env = ok_env\<lparr>status := (\<lambda>c. if c = clBuildProgram then - 11 else CL_SUCCESS),
     build_log := ''error: use of undeclared identifier''\<rparr>"

definition noisy_env :: env where
  "noisy_env = ok_env\<lparr>host_uninit := (\<lambda>m k. PInf), device_uninit := (\<lambda>k. Finite (of_nat k)),
     fp_modes := (\<lambda>g k. \<lparr>fuses = even k, flushes_in = True, flushes_out = True\<rparr>)\<rparr>"


subsection \<open>Matrices of an example\<close>

text \<open>
  Two matrices of the program's size whose products overflow: along row 0 of the first
  and column 0 of the second the products are \<open>2 ^ 127\<close>, \<open>2 ^ 127\<close> and \<open>- 2 ^ 128\<close>,
  then zeros, so that their sum is 0.
\<close>

definition overflow_A :: "rat list" where
  "overflow_A = [2 ^ 64, 2 ^ 64, - (2 ^ 64)] @ replicate (MATRIX_SIZE * MATRIX_SIZE - 3) 0"

definition overflow_B :: "rat list" where
  "overflow_B =
     (replicate (MATRIX_SIZE * MATRIX_SIZE) 0)
       [0 := 2 ^ 63, MATRIX_SIZE := 2 ^ 63, 2 * MATRIX_SIZE := 2 ^ 64]"

subsection \<open>The shape of a run\<close>

text \<open>
  The proofs read \<^verbatim>\<open>main\<close> in these shapes, each proved below to be what \<open>main\<close>
  computes: the events before a run (\<open>prepend\<close>); a list of calls each followed by its
  \<^verbatim>\<open>checkError\<close> (\<open>checks\<close>), ten of them before the build (\<open>setup_calls\<close>) and seven
  after it (\<open>launch_calls\<close>); the build and its branch (\<open>build_step\<close>); the events from
  the printing on (\<open>tail_events\<close>); and the whole run when every checked call succeeds
  (\<open>normal_trace\<close>).
\<close>

definition prepend :: "event list \<Rightarrow> run \<Rightarrow> run" where
  "prepend es r = (es @ fst r, snd r)"

fun checks :: "env \<Rightarrow> (api_call \<times> string) list \<Rightarrow> run \<Rightarrow> run" where
  "checks env [] r = r"
| "checks env (p # ps) r =
     seq (call (fst p)) (seq (checkError (status env (fst p)) (snd p)) (checks env ps r))"

definition setup_calls :: "(api_call \<times> string) list" where
  "setup_calls = take 10 checked_calls"

definition launch_calls :: "(api_call \<times> string) list" where
  "launch_calls = drop 10 checked_calls"

definition build_step :: "env \<Rightarrow> run \<Rightarrow> run" where
  "build_step env r =
     prepend [Call clBuildProgram]
       (if status env clBuildProgram \<noteq> CL_SUCCESS
        then prepend [Call (clGetProgramBuildInfo 10240)]
               (seq (print_build_log (build_info_buffer env 10240)) (exit 1))
        else r)"

definition tail_events :: "'s libc \<Rightarrow> event list" where
  "tail_events libc =
     print_events libc (matmul_ref (initial_A libc) (initial_B libc) MATRIX_SIZE) MATRIX_SIZE
     @ [Call (clReleaseMemObject MA), Call (clReleaseMemObject MB), Call (clReleaseMemObject MC),
        Call clReleaseKernel, Call clReleaseProgram, Call clReleaseCommandQueue,
        Call clReleaseContext, Free MA, Free MB, Free MC]"

definition normal_trace :: "'s libc \<Rightarrow> event list" where
  "normal_trace libc =
     [Malloc MA 1048576, Malloc MB 1048576, Malloc MC 1048576,
      Call clGetPlatformIDs, Call clGetDeviceIDs, Call clCreateContext, Call clCreateCommandQueue,
      Call (clCreateBuffer MA CL_MEM_READ_ONLY 1048576),
      Call (clCreateBuffer MB CL_MEM_READ_ONLY 1048576),
      Call (clCreateBuffer MC CL_MEM_WRITE_ONLY 1048576),
      Call (clEnqueueWriteBuffer MA True 1048576),
      Call (clEnqueueWriteBuffer MB True 1048576),
      Call clCreateProgramWithSource, Call clBuildProgram,
      Call (clCreateKernel ''matmul''),
      Call (clSetKernelArg 0), Call (clSetKernelArg 1), Call (clSetKernelArg 2),
      Call (clSetKernelArg 3),
      Call (clEnqueueNDRangeKernel 2 [512, 512] [16, 16]),
      Call (clEnqueueReadBuffer MC True 1048576)]
     @ print_events libc (matmul_ref (initial_A libc) (initial_B libc) MATRIX_SIZE) MATRIX_SIZE
     @ [Call (clReleaseMemObject MA), Call (clReleaseMemObject MB), Call (clReleaseMemObject MC),
        Call clReleaseKernel, Call clReleaseProgram, Call clReleaseCommandQueue,
        Call clReleaseContext, Free MA, Free MB, Free MC]"

text \<open>
  A run fails at the call \<open>c\<close> of the operation \<open>nm\<close>: its events are those up to the
  call and then the error line alone, which is all it writes to standard error, and
  it exits with code 1.
\<close>

definition fails_at :: "env \<Rightarrow> api_call \<Rightarrow> string \<Rightarrow> run \<Rightarrow> bool" where
  "fails_at env c nm r =
     (fst r = until_call c (fst r) @ [Stderr (error_line nm (status env c))]
      \<and> stderr_of (fst r) = error_line nm (status env c)
      \<and> snd r = Some (Exit 1))"

section \<open>Rounding\<close>

text \<open>
  Powers of two, the exponent of a positive number, and the error of one rounding: at
  most half a unit in the last place, which is at most \<open>\<bar>x\<bar> / 2 ^ 24\<close> for a normal
  result and \<open>1 / 2 ^ 150\<close> for a subnormal one. Integers below \<open>2 ^ 24\<close> in magnitude
  are not rounded at all.
\<close>

lemma rne_of_int: "rne (of_int m) = m"
  by (simp add: rne_def Let_def)

lemma ilog2_of_int:
  assumes "0 < m" "m < 16777216"
  shows "ilog2 (of_int m) \<le> 23" "0 \<le> ilog2 (of_int m)"
proof -
  have one: "(1::rat) \<le> of_int m" using assms(1) by simp
  have "bitlen m \<le> 24" using assms(2) by (simp add: bitlen_le_iff_power)
  moreover have "1 \<le> bitlen m" using assms(1) by (simp add: bitlen_ge_iff_power)
  moreover have "ilog2 (of_int m) = bitlen m - 1" using one by (simp add: ilog2_def)
  ultimately show "ilog2 (of_int m) \<le> 23" "0 \<le> ilog2 (of_int m)" by simp_all
qed


lemma pow2_pos: "0 < pow2 e"
  by (simp add: pow2_def)

lemma pow2_Suc: "pow2 (e + 1) = 2 * pow2 e"
proof (cases "0 \<le> e")
  case True
  then show ?thesis by (simp add: pow2_def nat_add_distrib)
next
  case False
  then have "nat (- e) = Suc (nat (- (e + 1)))" by simp
  then show ?thesis using False by (cases "e + 1 = 0") (simp_all add: pow2_def)
qed

lemma pow2_plus_nat: "pow2 (e + int k) = 2 ^ k * pow2 e"
proof (induction k)
  case 0
  show ?case by simp
next
  case (Suc k)
  have "e + int (Suc k) = (e + int k) + 1" by simp
  then have "pow2 (e + int (Suc k)) = pow2 ((e + int k) + 1)" by (rule arg_cong)
  also have "\<dots> = 2 * pow2 (e + int k)" by (rule pow2_Suc)
  finally show ?case using Suc by simp
qed

lemma pow2_nat: "pow2 (int k) = 2 ^ k"
  by (simp add: pow2_def)

lemma pow2_neg_nat: "pow2 (- int k) = 1 / 2 ^ k"
  by (cases "k = 0") (simp_all add: pow2_def)

lemma pow2_ilog2_le:
  assumes "0 < a"
  shows "pow2 (ilog2 a) \<le> a"
proof (cases "1 \<le> a")
  case True
  then have f: "0 < \<lfloor>a\<rfloor>" by simp
  then have b: "1 \<le> bitlen \<lfloor>a\<rfloor>" by (simp add: bitlen_ge_iff_power)
  have "2 ^ nat (bitlen \<lfloor>a\<rfloor> - 1) \<le> \<lfloor>a\<rfloor>" using bitlen_bounds [OF f] by simp
  then have "(of_int (2 ^ nat (bitlen \<lfloor>a\<rfloor> - 1)) :: rat) \<le> of_int \<lfloor>a\<rfloor>"
    by (simp only: of_int_le_iff)
  also have "\<dots> \<le> a" by simp
  finally have "(2 :: rat) ^ nat (bitlen \<lfloor>a\<rfloor> - 1) \<le> a" by simp
  then show ?thesis using True b by (simp add: ilog2_def pow2_def)
next
  case False
  then have lt: "a < 1" by simp
  define m where "m = \<lceil>1 / a\<rceil>"
  define L where "L = bitlen (m - 1)"
  have inv: "1 < 1 / a" using assms lt by simp
  then have m2: "2 \<le> m" unfolding m_def by (simp add: le_ceiling_iff) 
  then have pos: "0 < m - 1" by simp
  have L0: "0 \<le> L" unfolding L_def by (rule bitlen_nonneg)
  have "m - 1 < 2 ^ nat L" using bitlen_bounds [OF pos] by (simp add: L_def)
  then have "m \<le> 2 ^ nat L" by simp
  then have "(of_int m :: rat) \<le> of_int (2 ^ nat L)" by (simp only: of_int_le_iff)
  moreover have "1 / a \<le> of_int m" unfolding m_def by simp
  ultimately have "1 / a \<le> of_int (2 ^ nat L)" by linarith
  then have "1 / a \<le> 2 ^ nat L" by simp
  then have "1 \<le> 2 ^ nat L * a" using assms by (simp add: field_simps)
  then have "1 / 2 ^ nat L \<le> a" by (simp add: field_simps)
  moreover have "pow2 (ilog2 a) = 1 / 2 ^ nat L"
    using lt L0 pow2_neg_nat [of "nat L"] by (simp add: ilog2_def m_def L_def)
  ultimately show ?thesis by simp
qed

lemma ilog2_upper:
  assumes "0 < a"
  shows "a < pow2 (ilog2 a + 1)"
proof (cases "1 \<le> a")
  case True
  then have f: "0 < \<lfloor>a\<rfloor>" by simp
  then have b: "1 \<le> bitlen \<lfloor>a\<rfloor>" by (simp add: bitlen_ge_iff_power)
  have "\<lfloor>a\<rfloor> < 2 ^ nat (bitlen \<lfloor>a\<rfloor>)" using bitlen_bounds [OF f] by simp
  then have "\<lfloor>a\<rfloor> + 1 \<le> 2 ^ nat (bitlen \<lfloor>a\<rfloor>)" by simp
  then have "(of_int (\<lfloor>a\<rfloor> + 1) :: rat) \<le> of_int (2 ^ nat (bitlen \<lfloor>a\<rfloor>))"
    by (simp only: of_int_le_iff)
  moreover have "a < of_int (\<lfloor>a\<rfloor> + 1)" by linarith
  ultimately have "a < of_int (2 ^ nat (bitlen \<lfloor>a\<rfloor>))" by linarith
  then have "a < 2 ^ nat (bitlen \<lfloor>a\<rfloor>)" by simp
  then show ?thesis using True b by (simp add: ilog2_def pow2_def)
next
  case False
  then have lt: "a < 1" by simp
  define m where "m = \<lceil>1 / a\<rceil>"
  define L where "L = bitlen (m - 1)"
  have inv: "1 < 1 / a" using assms lt by simp
  then have m2: "2 \<le> m" unfolding m_def by (simp add: le_ceiling_iff)
  then have pos: "0 < m - 1" by simp
  then have L1: "1 \<le> L" unfolding L_def by (simp add: bitlen_ge_iff_power)
  have "2 ^ nat (L - 1) \<le> m - 1" using bitlen_bounds [OF pos] by (simp add: L_def)
  then have "(of_int (2 ^ nat (L - 1)) :: rat) \<le> of_int (m - 1)" by (simp only: of_int_le_iff)
  moreover have "of_int (m - 1) < 1 / a" unfolding m_def by (simp add: ceiling_correct)
  ultimately have "of_int (2 ^ nat (L - 1)) < 1 / a" by linarith
  then have "2 ^ nat (L - 1) < 1 / a" by simp
  then have "2 ^ nat (L - 1) * a < 1" using assms by (simp add: field_simps)
  then have "a < 1 / 2 ^ nat (L - 1)" by (simp add: field_simps)
  moreover have "pow2 (ilog2 a + 1) = 1 / 2 ^ nat (L - 1)"
  proof -
    have "ilog2 a + 1 = - int (nat (L - 1))" using lt L1 by (simp add: ilog2_def m_def L_def)
    then show ?thesis by (simp only: pow2_neg_nat)
  qed
  ultimately show ?thesis by simp
qed

lemma rne_error: "\<bar>of_int (rne q) - q\<bar> \<le> 1 / 2"
proof -
  have "0 \<le> q - of_int \<lfloor>q\<rfloor>" "q - of_int \<lfloor>q\<rfloor> < 1" by linarith+
  then show ?thesis by (simp add: rne_def Let_def abs_if) linarith
qed

lemma round32_error:
  assumes "\<bar>x\<bar> \<le> 2 ^ 127"
  shows "\<exists>y. round32 x = Finite y \<and> \<bar>y - x\<bar> \<le> \<bar>x\<bar> / 2 ^ 24 + 1 / 2 ^ 150"
proof (cases "x = 0")
  case True
  then show ?thesis by (simp add: round32_def)
next
  case False
  define a where "a = \<bar>x\<bar>"
  define e where "e = max (ilog2 a - 23) (- 149)"
  define y where "y = of_int (rne (a / pow2 e)) * pow2 e"
  have a: "0 < a" using False by (simp add: a_def)
  have P: "0 < pow2 e" by (rule pow2_pos)
  have "\<bar>y - a\<bar> = \<bar>of_int (rne (a / pow2 e)) - a / pow2 e\<bar> * pow2 e"
  proof -
    have "y - a = (of_int (rne (a / pow2 e)) - a / pow2 e) * pow2 e"
      using P by (simp add: y_def field_simps)
    then show ?thesis using P by (simp add: abs_mult)
  qed
  also have "\<dots> \<le> 1 / 2 * pow2 e"
    using rne_error [of "a / pow2 e"] P by (intro mult_right_mono) simp_all
  finally have err: "\<bar>y - a\<bar> \<le> pow2 e / 2" by simp
  have half: "pow2 e / 2 \<le> a / 2 ^ 24 + 1 / 2 ^ 150"
  proof (cases "- 149 \<le> ilog2 a - 23")
    case True
    then have "e = ilog2 a - 23" by (simp add: e_def)
    then have "pow2 (ilog2 a) = 2 ^ 23 * pow2 e"
      using pow2_plus_nat [of e 23] by simp
    then have "2 ^ 23 * pow2 e \<le> a" using pow2_ilog2_le [OF a] by simp
    then have "pow2 e / 2 \<le> a / 2 ^ 24" by simp
    then show ?thesis by (simp add: add_increasing2)
  next
    case False
    then have "e = - 149" by (simp add: e_def)
    then have "pow2 e / 2 = 1 / 2 ^ 150" by (simp add: pow2_def)
    then show ?thesis using a by simp
  qed
  have bound: "\<bar>y - a\<bar> \<le> a / 2 ^ 24 + 1 / 2 ^ 150" using err half by linarith
  have "y \<le> a + a / 2 ^ 24 + 1 / 2 ^ 150" using bound by linarith
  also have "\<dots> \<le> 2 ^ 127 + 2 ^ 127 / 2 ^ 24 + 1 / 2 ^ 150"
    using assms by (simp add: a_def add_mono divide_right_mono)
  also have "\<dots> < pow2 128" by (simp add: pow2_def)
  finally have fin: "\<not> pow2 128 \<le> y" by simp
  have r: "round32 x = Finite (if 0 < x then y else - y)"
    using False fin by (simp add: round32_def Let_def a_def e_def y_def)
  have "\<bar>(if 0 < x then y else - y) - x\<bar> = \<bar>y - a\<bar>"
    using False by (cases "0 < x") (simp_all add: a_def abs_if)
  then show ?thesis using r bound by (simp add: a_def)
qed

lemma round32_int:
  assumes "\<bar>n\<bar> < 16777216"
  shows "round32 (of_int n) = Finite (of_int n)"
proof (cases "n = 0")
  case True
  then show ?thesis by (simp add: round32_def)
next
  case False
  define m where "m = \<bar>n\<bar>"
  have m: "0 < m" "m < 16777216" using False assms by (simp_all add: m_def)
  define e where "e = max (ilog2 (of_int m) - 23) (- 149)"
  define k where "k = nat (- e)"
  have e: "e \<le> 0" using ilog2_of_int [OF m] by (simp add: e_def)
  have p: "pow2 e = 1 / 2 ^ k"
    using e by (cases "e = 0") (simp_all add: pow2_def k_def)
  have sc: "(of_int m :: rat) / pow2 e = of_int (m * 2 ^ k)" by (simp add: p)
  have y: "of_int (rne (of_int m / pow2 e)) * pow2 e = (of_int m :: rat)"
    by (simp only: sc rne_of_int) (simp add: p)
  have "(of_int m :: rat) < of_int 16777216" using m(2) by (simp only: of_int_less_iff)
  also have "\<dots> < pow2 128" by (simp add: pow2_def)
  finally have lt: "\<not> pow2 128 \<le> (of_int m :: rat)" by simp
  have nz: "(of_int n :: rat) \<noteq> 0" using False by simp
  have ab: "\<bar>of_int n :: rat\<bar> = of_int m" by (simp add: m_def)
  have sg: "(if (0::rat) < of_int n then of_int m else - of_int m) = (of_int n :: rat)"
    by (simp add: m_def)
  show ?thesis
    unfolding round32_def Let_def ab e_def [symmetric] y
    using nz lt sg by simp
qed

text \<open>Flushing moves a value by less than the least normal number, and no integer.\<close>

lemma flush_error: "\<exists>y. flush z (Finite x) = Finite y \<and> \<bar>y - x\<bar> \<le> 1 / 2 ^ 126 \<and> \<bar>y\<bar> \<le> \<bar>x\<bar>"
  by (cases "z \<and> \<bar>x\<bar> < 1 / 2 ^ 126") auto

lemma flush_normal: "\<not> z \<or> x = 0 \<or> 1 / 2 ^ 126 \<le> \<bar>x\<bar> \<Longrightarrow> flush z (Finite x) = Finite x"
  by auto

lemma flush_off: "flush False v = v"
  by (cases v) simp_all

lemma mac_ieee: "mac ieee acc a b = fadd acc (fmul a b)"
  by (simp add: mac_def ieee_def flush_off)

lemma flush_int: "flush z (Finite (of_int n)) = Finite (of_int n)"
proof (cases "n = 0")
  case True
  then show ?thesis by simp
next
  case False
  then have "1 \<le> \<bar>n\<bar>" by simp
  then have "(of_int 1 :: rat) \<le> of_int \<bar>n\<bar>" by (simp only: of_int_le_iff)
  then have "(1 :: rat) \<le> \<bar>of_int n\<bar>" by simp
  moreover have "(1 :: rat) / 2 ^ 126 \<le> 1" by simp
  ultimately have "(1 :: rat) / 2 ^ 126 \<le> \<bar>of_int n\<bar>" by (rule order_trans [rotated])
  then show ?thesis by (intro flush_normal disjI2)
qed

text \<open>
  One step of the accumulation, in any mode, on finite values in range: when the sum
  so far is within \<open>e\<close> of the exact one, the next is within \<open>e + 4 * D\<close>, where \<open>D\<close>
  bounds one rounding of a value of magnitude \<open>W\<close> and the flushes of a step.
\<close>

lemma mac_error:
  fixes s e W D :: rat
  assumes D: "D = W / 2 ^ 24 + 1 / 2 ^ 123"
    and s: "\<bar>s - E\<bar> \<le> e" and E: "\<bar>E\<bar> + \<bar>a * b\<bar> \<le> W"
    and e: "e / 2 ^ 24 \<le> D" and W: "W \<le> 2 ^ 125"
    and a: "\<not> flushes_in m \<or> a = 0 \<or> 1 / 2 ^ 126 \<le> \<bar>a\<bar>"
    and b: "\<not> flushes_in m \<or> b = 0 \<or> 1 / 2 ^ 126 \<le> \<bar>b\<bar>"
  shows "\<exists>s'. mac m (Finite s) (Finite a) (Finite b) = Finite s'
    \<and> \<bar>s' - (E + a * b)\<bar> \<le> e + 4 * D"
proof -
  define h :: rat where "h = 1 / 2 ^ 126"
  define P where "P = a * b"
  define Wd where "Wd = W / 2 ^ 24"
  have h: "0 \<le> h" "h \<le> 1" "1 / 2 ^ 150 \<le> h" "h / 2 ^ 24 \<le> h" by (simp_all add: h_def)
  have W0: "0 \<le> W" using E by linarith
  have Dh: "D = Wd + 8 * h" by (simp add: D h_def Wd_def)
  have Wd: "0 \<le> Wd" "Wd \<le> W" using W0 by (simp_all add: Wd_def field_simps)
  have D0: "0 \<le> D" using Wd h Dh by linarith
  have DW: "D \<le> W + 1"
  proof -
    have "8 * h \<le> 1" by (simp add: h_def)
    then show ?thesis using Wd Dh by linarith
  qed
  have Du: "D / 2 ^ 24 \<le> D" using D0 by (simp add: field_simps)
  have ab: "\<bar>P\<bar> \<le> W" and EP: "\<bar>E\<bar> + \<bar>P\<bar> \<le> W" using E unfolding P_def by linarith+
  have eW: "e \<le> W + 1"
  proof -
    have "e \<le> 2 ^ 24 * D" using e by (simp add: field_simps)
    also have "\<dots> = W + 2 ^ 24 / 2 ^ 123" by (simp add: D field_simps)
    also have "\<dots> \<le> W + 1" by simp
    finally show ?thesis .
  qed
  have big: "(2::rat) ^ 127 = 4 * 2 ^ 125" "(3::rat) \<le> 2 ^ 125" by simp_all
  obtain s1 where s1: "flush (flushes_in m) (Finite s) = Finite s1" and ds: "\<bar>s1 - s\<bar> \<le> h"
    using flush_error [of "flushes_in m" s] unfolding h_def by blast
  have fa: "flush (flushes_in m) (Finite a) = Finite a" using a by (rule flush_normal)
  have fb: "flush (flushes_in m) (Finite b) = Finite b" using b by (rule flush_normal)
  show ?thesis
  proof (cases "fuses m")
    case True
    define X where "X = \<bar>P + s1\<bar>"
    have r1: "X \<le> W + e + h" using EP s ds unfolding X_def by linarith
    then have "X \<le> 2 ^ 127" using eW W big h by linarith
    then obtain t where t: "round32 (a * b + s1) = Finite t"
      and dt: "\<bar>t - (P + s1)\<bar> \<le> X / 2 ^ 24 + 1 / 2 ^ 150"
      unfolding X_def P_def using round32_error by blast
    obtain r where r: "flush (flushes_out m) (Finite t) = Finite r" and dr: "\<bar>r - t\<bar> \<le> h"
      using flush_error [of "flushes_out m" t] unfolding h_def by blast
    have "X / 2 ^ 24 \<le> (W + e + h) / 2 ^ 24"
      using r1 by (rule divide_right_mono) simp
    moreover have "(W + e + h) / 2 ^ 24 = Wd + e / 2 ^ 24 + h / 2 ^ 24"
      by (simp add: add_divide_distrib Wd_def)
    ultimately have Xd: "X / 2 ^ 24 \<le> Wd + D + h" using e h by linarith
    define Y where "Y = \<bar>t - (P + s1)\<bar>"
    have Y: "Y \<le> Wd + D + 2 * h" using dt Xd h unfolding Y_def by linarith
    have "\<bar>r - (E + P)\<bar> \<le> h + Y + h + e" using dr ds s unfolding Y_def by linarith
    then have "\<bar>r - (E + P)\<bar> \<le> e + 4 * D" using Y D0 Wd h Dh by linarith
    moreover have "mac m (Finite s) (Finite a) (Finite b) = Finite r"
      using True by (simp only: mac_def Let_def s1 fa fb ffma.simps t r if_True)
    ultimately show ?thesis unfolding P_def by blast
  next
    case False
    define Z where "Z = \<bar>P\<bar>"
    have "Z \<le> 2 ^ 127" using ab W big unfolding Z_def by linarith
    then obtain p0 where p0: "round32 (a * b) = Finite p0"
      and d0: "\<bar>p0 - P\<bar> \<le> Z / 2 ^ 24 + 1 / 2 ^ 150"
      unfolding Z_def P_def using round32_error by blast
    obtain p1 where p1: "flush (flushes_out m) (Finite p0) = Finite p1" and d1: "\<bar>p1 - p0\<bar> \<le> h"
      using flush_error [of "flushes_out m" p0] unfolding h_def by blast
    obtain p2 where p2: "flush (flushes_in m) (Finite p1) = Finite p2" and d2: "\<bar>p2 - p1\<bar> \<le> h"
      using flush_error [of "flushes_in m" p1] unfolding h_def by blast
    have "Z / 2 ^ 24 \<le> W / 2 ^ 24" using ab unfolding Z_def by (rule divide_right_mono) simp
    then have "Z / 2 ^ 24 \<le> Wd" by (simp only: Wd_def)
    then have dp: "\<bar>p2 - P\<bar> \<le> Wd + 3 * h" using d0 d1 d2 h by linarith
    then have dp': "\<bar>p2 - P\<bar> \<le> D" using h Dh by linarith
    define X where "X = \<bar>s1 + p2\<bar>"
    have r1: "X \<le> W + e + h + D" using EP s ds dp' unfolding X_def by linarith
    then have "X \<le> 2 ^ 127" using eW DW W big h by linarith
    then obtain t where t: "round32 (s1 + p2) = Finite t"
      and dt: "\<bar>t - (s1 + p2)\<bar> \<le> X / 2 ^ 24 + 1 / 2 ^ 150"
      unfolding X_def using round32_error by blast
    obtain r where r: "flush (flushes_out m) (Finite t) = Finite r" and dr: "\<bar>r - t\<bar> \<le> h"
      using flush_error [of "flushes_out m" t] unfolding h_def by blast
    have "X / 2 ^ 24 \<le> (W + e + h + D) / 2 ^ 24"
      using r1 by (rule divide_right_mono) simp
    moreover have "(W + e + h + D) / 2 ^ 24 = Wd + e / 2 ^ 24 + h / 2 ^ 24 + D / 2 ^ 24"
      by (simp add: add_divide_distrib Wd_def)
    ultimately have Xd: "X / 2 ^ 24 \<le> Wd + D + h + D" using e h Du by linarith
    define Y where "Y = \<bar>t - (s1 + p2)\<bar>"
    have Y: "Y \<le> Wd + 2 * D + 2 * h" using dt Xd h unfolding Y_def by linarith
    have "\<bar>r - (E + P)\<bar> \<le> h + Y + h + (Wd + 3 * h) + e"
      using dr ds dp s unfolding Y_def by linarith
    then have "\<bar>r - (E + P)\<bar> \<le> e + 4 * D" using Y h Dh by linarith
    moreover have "mac m (Finite s) (Finite a) (Finite b) = Finite r"
      using False by (simp only: mac_def Let_def s1 fa fb fmul.simps fadd.simps p0 p1 p2 t r if_False)
    ultimately show ?thesis unfolding P_def by blast
  qed
qed

lemma dot_error:
  fixes a b :: "nat \<Rightarrow> rat"
  assumes A: "\<And>k. k < n \<Longrightarrow> A ! (i * n + k) = Finite (a k)
        \<and> (\<not> flushes_in (f k) \<or> a k = 0 \<or> 1 / 2 ^ 126 \<le> \<bar>a k\<bar>)"
    and B: "\<And>k. k < n \<Longrightarrow> B ! (k * n + j) = Finite (b k)
        \<and> (\<not> flushes_in (f k) \<or> b k = 0 \<or> 1 / 2 ^ 126 \<le> \<bar>b k\<bar>)"
    and n: "4 * n \<le> 2 ^ 24"
    and W: "(\<Sum>k<n. \<bar>a k * b k\<bar>) \<le> 2 ^ 125"
  shows "m \<le> n \<Longrightarrow>
    \<exists>s. foldl (\<lambda>acc k. mac (f k) acc (A ! (i * n + k)) (B ! (k * n + j))) (Finite 0) [0..<m] =
          Finite s
      \<and> \<bar>s - (\<Sum>k<m. a k * b k)\<bar> \<le>
          4 * of_nat m * ((\<Sum>k<n. \<bar>a k * b k\<bar>) / 2 ^ 24 + 1 / 2 ^ 123)"
proof (induction m)
  case 0
  show ?case by simp
next
  case (Suc m)
  define Wn where "Wn = (\<Sum>k<n. \<bar>a k * b k\<bar>)"
  define D where "D = Wn / 2 ^ 24 + 1 / 2 ^ 123"
  define E where "E = (\<Sum>k<m. a k * b k)"
  have m: "m < n" using Suc.prems by simp
  have W0: "0 \<le> Wn" unfolding Wn_def by (intro sum_nonneg) simp
  then have D0: "0 \<le> D" by (simp add: D_def)
  obtain s where fold: "foldl (\<lambda>acc k. mac (f k) acc (A ! (i * n + k)) (B ! (k * n + j)))
      (Finite 0) [0..<m] = Finite s" and err: "\<bar>s - E\<bar> \<le> 4 * of_nat m * D"
    using Suc.IH m unfolding Wn_def D_def E_def by auto
  have "\<bar>E\<bar> + \<bar>a m * b m\<bar> \<le> (\<Sum>k<m. \<bar>a k * b k\<bar>) + \<bar>a m * b m\<bar>"
    unfolding E_def by (simp add: sum_abs)
  also have "\<dots> = (\<Sum>k<Suc m. \<bar>a k * b k\<bar>)" by simp
  also have "\<dots> \<le> Wn" unfolding Wn_def
    using m by (intro sum_mono2) auto
  finally have EW: "\<bar>E\<bar> + \<bar>a m * b m\<bar> \<le> Wn" .
  have small: "4 * of_nat m * D / 2 ^ 24 \<le> D"
  proof -
    have "4 * m \<le> 2 ^ 24" using m n by simp
    then have "(of_nat (4 * m) :: rat) \<le> of_nat (2 ^ 24)" by (simp only: of_nat_le_iff)
    then have "(4 * of_nat m :: rat) \<le> 2 ^ 24" by simp
    then have "4 * of_nat m * D \<le> 2 ^ 24 * D" using D0 by (rule mult_right_mono)
    then show ?thesis by (simp add: field_simps)
  qed
  have am: "\<not> flushes_in (f m) \<or> a m = 0 \<or> 1 / 2 ^ 126 \<le> \<bar>a m\<bar>"
    and bm: "\<not> flushes_in (f m) \<or> b m = 0 \<or> 1 / 2 ^ 126 \<le> \<bar>b m\<bar>"
    using A [OF m] B [OF m] by blast+
  have Wn: "Wn \<le> 2 ^ 125" using W unfolding Wn_def .
  obtain s' where step: "mac (f m) (Finite s) (Finite (a m)) (Finite (b m)) = Finite s'"
    and err': "\<bar>s' - (E + a m * b m)\<bar> \<le> 4 * of_nat m * D + 4 * D"
    using mac_error [OF D_def err EW small Wn am bm] by blast
  have "foldl (\<lambda>acc k. mac (f k) acc (A ! (i * n + k)) (B ! (k * n + j))) (Finite 0) [0..<Suc m] =
      Finite s'"
    using fold step A [OF m] B [OF m] by simp
  moreover have "\<bar>s' - (\<Sum>k<Suc m. a k * b k)\<bar> \<le> 4 * of_nat (Suc m) * D"
    using err' by (simp add: E_def algebra_simps)
  ultimately show ?case unfolding D_def Wn_def by blast
qed

text \<open>On integers of small magnitude no step rounds or flushes, in any mode.\<close>

lemma mac_int:
  assumes "\<bar>a * b\<bar> < 16777216" "\<bar>s + a * b\<bar> < 16777216"
  shows "mac m (Finite (of_int s)) (Finite (of_int a)) (Finite (of_int b)) =
    Finite (of_int (s + a * b))"
proof -
  have "round32 (of_int a * of_int b + of_int s) = round32 (of_int (s + a * b))"
    by (simp add: add.commute)
  then have F: "ffma (Finite (of_int a)) (Finite (of_int b)) (Finite (of_int s)) =
      Finite (of_int (s + a * b))"
    using round32_int [OF assms(2)] by simp
  have P: "fmul (Finite (of_int a)) (Finite (of_int b)) = Finite (of_int (a * b))"
    using round32_int [OF assms(1)] by simp
  have S: "fadd (Finite (of_int s)) (Finite (of_int (a * b))) = Finite (of_int (s + a * b))"
    using round32_int [OF assms(2)] by simp
  show ?thesis
    by (simp only: mac_def Let_def flush_int F P S if_cancel)
qed

lemma dot_int_exact:
  fixes a b :: "nat \<Rightarrow> int"
  assumes A: "\<And>k. k < n \<Longrightarrow> A ! (i * n + k) = Finite (of_int (a k)) \<and> \<bar>a k\<bar> \<le> 99"
    and B: "\<And>k. k < n \<Longrightarrow> B ! (k * n + j) = Finite (of_int (b k)) \<and> \<bar>b k\<bar> \<le> 99"
    and n: "n * 9801 < 16777216"
  shows "m \<le> n \<Longrightarrow>
    foldl (\<lambda>acc k. mac (f k) acc (A ! (i * n + k)) (B ! (k * n + j))) (Finite 0) [0..<m] =
      Finite (of_int (\<Sum>k<m. a k * b k)) \<and> \<bar>\<Sum>k<m. a k * b k\<bar> \<le> int m * 9801"
proof (induction m)
  case 0
  show ?case by simp
next
  case (Suc m)
  then have m: "m < n" by simp
  define S where "S = (\<Sum>k<m. a k * b k)"
  have IH: "foldl (\<lambda>acc k. mac (f k) acc (A ! (i * n + k)) (B ! (k * n + j))) (Finite 0) [0..<m] =
      Finite (of_int S)" and bound: "\<bar>S\<bar> \<le> int m * 9801"
    using Suc.IH m unfolding S_def by simp_all
  have "\<bar>a m * b m\<bar> = \<bar>a m\<bar> * \<bar>b m\<bar>" by (rule abs_mult)
  also have "\<dots> \<le> 99 * 99" using A [OF m] B [OF m] by (intro mult_mono) simp_all
  finally have ab: "\<bar>a m * b m\<bar> \<le> 9801" by simp
  have "int (Suc m) * 9801 \<le> int n * 9801" using m by simp
  moreover have "int n * 9801 < 16777216" using n by linarith
  ultimately have top: "int (Suc m) * 9801 < 16777216" by linarith
  have next_bound: "\<bar>S + a m * b m\<bar> \<le> int (Suc m) * 9801" using bound ab by simp
  have step: "mac (f m) (Finite (of_int S)) (Finite (of_int (a m))) (Finite (of_int (b m))) =
      Finite (of_int (S + a m * b m))"
    using ab next_bound top by (intro mac_int) linarith+
  have "foldl (\<lambda>acc k. mac (f k) acc (A ! (i * n + k)) (B ! (k * n + j))) (Finite 0) [0..<Suc m] =
      Finite (of_int (S + a m * b m))"
    using IH step A [OF m] B [OF m] by simp
  then show ?case using next_bound unfolding S_def by simp
qed

section \<open>The kernel computes the product\<close>

lemma offset_less: "i < n \<Longrightarrow> k < n \<Longrightarrow> i * n + k < n * (n::nat)"
proof -
  assume a: "i < n" "k < n"
  then have "i * n + k < i * n + n" by simp
  also have "\<dots> = Suc i * n" by simp
  also have "\<dots> \<le> n * n" using a by (intro mult_le_mono1) simp
  finally show ?thesis .
qed

lemma int32_nat: "n \<le> 2147483647 \<Longrightarrow> int32 (int n) = Some (int n)"
  by (simp add: int32_def INT_MAX_def)

lemma imul_nat: "a * b \<le> 2147483647 \<Longrightarrow> imul (int a) (int b) = Some (int (a * b))"
  using int32_nat [of "a * b"] by (simp add: imul_def)

lemma iadd_nat: "a + b \<le> 2147483647 \<Longrightarrow> iadd (int a) (int b) = Some (int (a + b))"
  using int32_nat [of "a + b"] by (simp add: iadd_def)

lemma load_nat: "i < length M \<Longrightarrow> load M (int i) = Some (M ! i)"
  by (simp add: load_def)

lemma store_nat: "i < length M \<Longrightarrow> store M (int i) v = Some (M[i := v])"
  by (simp add: store_def)

lemma matmul_loop_foldl:
  assumes "i < n" "j < n" "n * n \<le> 2147483647" "length A = n * n" "length B = n * n"
  shows "k \<le> n \<Longrightarrow> matmul_loop mode A B (int n) (int i) (int j) (int k) acc =
    Some (foldl (\<lambda>acc k. mac (mode (int k)) acc (A ! (i * n + k)) (B ! (k * n + j))) acc [k..<n])"
proof (induction "n - k" arbitrary: k acc)
  case 0
  then show ?case by (simp add: matmul_loop.simps)
next
  case (Suc d)
  then have kn: "k < n" by simp
  have ik: "i * n + k < n * n" using assms(1) kn by (rule offset_less)
  have kj: "k * n + j < n * n" using kn assms(2) by (rule offset_less)
  have in': "i * n \<le> 2147483647" using ik assms(3) by simp
  have kn': "k * n \<le> 2147483647" using kj assms(3) by simp
  have n': "n \<le> 2147483647" using assms(3) kn
    by (metis le_trans le_square)
  have k1: "iadd (int k) 1 = Some (int (Suc k))"
    using iadd_nat [of k 1] kn n' by simp
  have IH: "matmul_loop mode A B (int n) (int i) (int j) (int (Suc k)) acc' =
    Some (foldl (\<lambda>acc k. mac (mode (int k)) acc (A ! (i * n + k)) (B ! (k * n + j))) acc'
      [Suc k..<n])" for acc'
    using Suc.hyps(1) [of "Suc k" acc'] Suc.hyps(2) kn by simp
  show ?case
    apply (subst matmul_loop.simps)
    using kn ik kj in' kn' assms(3,4,5) k1
    apply (simp add: imul_nat iadd_nat load_nat IH upt_conv_Cons del: of_nat_mult of_nat_add of_nat_Suc)
    done
qed

lemma in_global_ids: "g \<in> set (global_ids g0 g1) \<longleftrightarrow> fst g < g0 \<and> snd g < g1"
  by (cases g) (auto simp: global_ids_def image_iff)

lemma upt_shift: "[a..<a + n] = map (\<lambda>x. a + x) [0..<n]"
  by (induction n) simp_all

lemma rows_concat:
  "concat (map (\<lambda>y. map (\<lambda>x. f (y * n + x)) [0..<n]) [0..<m]) = map f [0..<m * n]"
proof (induction m)
  case 0
  show ?case by simp
next
  case (Suc m)
  have "[0..<Suc m * n] = [0..<m * n + n]"
    by (simp only: mult_Suc add.commute)
  also have "\<dots> = [0..<m * n] @ [m * n..<m * n + n]"
    using upt_add_eq_append [of 0 "m * n" n] by simp
  finally have split: "[0..<Suc m * n] = [0..<m * n] @ [m * n..<m * n + n]" .
  have "map f [m * n..<m * n + n] = map (\<lambda>x. f (m * n + x)) [0..<n]"
    by (subst upt_shift) (simp add: comp_def)
  then show ?case
    by (simp only: split map_append upt_Suc_append le0 if_True concat_append Suc.IH
        concat.simps append_Nil2 list.map)
qed


lemma matmul_item:
  assumes "i < n" "j < n" "n * n \<le> 2147483647" "length A = n * n" "length B = n * n"
  shows "matmul mode A B (int n) (j, i) = Some (int (i * n + j), dot_with mode A B n i j)"
proof -
  have ij: "i * n + j < n * n" using assms(1,2) by (rule offset_less)
  have n': "n \<le> 2147483647" using assms(3) le_square [of n] by (rule_tac order_trans)
  have loop: "matmul_loop mode A B (int n) (int i) (int j) 0 (Finite 0) =
      Some (dot_with mode A B n i j)"
    using matmul_loop_foldl [OF assms, of 0 mode "Finite 0"] by (simp add: dot_with_def)
  have r: "int32 (int i) = Some (int i)" and c: "int32 (int j) = Some (int j)"
    using assms(1,2) n' by (simp_all add: int32_nat)
  have m: "imul (int i) (int n) = Some (int (i * n))"
    using ij assms(3) by (intro imul_nat) simp
  have a: "iadd (int (i * n)) (int j) = Some (int (i * n + j))"
    using ij assms(3) by (intro iadd_nat) simp
  show ?thesis
    by (simp only: matmul_def fst_conv snd_conv r c m a loop bind.bind_lunit)
qed

lemma run_items_fold:
  assumes "n * n \<le> 2147483647" "length A = n * n" "length B = n * n"
  shows "\<forall>g\<in>set gs. fst g < n \<and> snd g < n \<Longrightarrow> length C = n * n \<Longrightarrow>
    run_items modes A B (int n) gs (C, ws) =
      Some (fold (\<lambda>g C. C[snd g * n + fst g := dot_with (modes g) A B n (snd g) (fst g)]) gs C,
            ws @ map (\<lambda>g. int (snd g * n + fst g)) gs)"
proof (induction gs arbitrary: C ws)
  case Nil
  show ?case by simp
next
  case (Cons g gs)
  obtain x y where g: "g = (x, y)" by (cases g)
  define v where "v = dot_with (modes (x, y)) A B n y x"
  have xy: "x < n" "y < n" using Cons.prems(1) g by auto
  have lt: "y * n + x < length C" using offset_less [OF xy(2) xy(1)] Cons.prems(2) by simp
  have item: "matmul (modes (x, y)) A B (int n) (x, y) = Some (int (y * n + x), v)"
    unfolding v_def using matmul_item [OF xy(2) xy(1) assms] .
  have rest: "run_items modes A B (int n) gs (C[y * n + x := v], ws @ [int (y * n + x)]) =
      Some (fold (\<lambda>g C. C[snd g * n + fst g := dot_with (modes g) A B n (snd g) (fst g)]) gs
              (C[y * n + x := v]),
            (ws @ [int (y * n + x)]) @ map (\<lambda>g. int (snd g * n + fst g)) gs)"
    using Cons.prems by (intro Cons.IH) simp_all
  show ?case
    unfolding g
    by (simp only: run_items.simps item [unfolded v_def] bind.bind_lunit fst_conv snd_conv
        store_nat [OF lt] rest [unfolded v_def] fold_simps list.map append_assoc append_Cons
        append_Nil)
qed

lemma fold_update_length:
  "length (fold (\<lambda>g C. C[h g := v g]) gs C) = length C"
  by (induction gs arbitrary: C) simp_all

lemma fold_update_nth:
  assumes "\<And>g. g \<in> set gs \<Longrightarrow> v g = w (h g)" "idx < length C"
  shows "fold (\<lambda>g C. C[h g := v g]) gs C ! idx = (if idx \<in> h ` set gs then w idx else C ! idx)"
  using assms
proof (induction gs arbitrary: C)
  case Nil
  show ?case by simp
next
  case (Cons g gs)
  have "fold (\<lambda>g C. C[h g := v g]) gs (C[h g := v g]) ! idx =
      (if idx \<in> h ` set gs then w idx else C[h g := v g] ! idx)"
    using Cons.prems by (intro Cons.IH) simp_all
  then show ?case using Cons.prems by (auto simp: nth_list_update)
qed

lemma dot_ref_with: "dot_ref A B n i j = dot_with (\<lambda>k. ieee) A B n i j"
  by (simp add: dot_ref_def dot_with_def mac_ieee)

lemma matmul_ref_map:
  "matmul_ref A B n = map (\<lambda>idx. dot_ref A B n (idx div n) (idx mod n)) [0..<n * n]"
proof -
  have "matmul_ref A B n =
      concat (map (\<lambda>y. map (\<lambda>x. dot_ref A B n ((y * n + x) div n) ((y * n + x) mod n)) [0..<n]) [0..<n])"
    unfolding matmul_ref_def by (intro arg_cong [where f = concat] map_cong refl) simp
  then show ?thesis
    using rows_concat [of "\<lambda>idx. dot_ref A B n (idx div n) (idx mod n)" n n] by simp
qed

lemma cells_of_ids:
  "(\<lambda>g. snd g * n + fst g) ` {g. fst g < n \<and> snd g < n} = {0..<n * (n::nat)}"
proof (intro equalityI subsetI)
  fix idx assume "idx \<in> (\<lambda>g. snd g * n + fst g) ` {g. fst g < n \<and> snd g < n}"
  then obtain x y where "idx = y * n + x" "x < n" "y < n" by auto
  then show "idx \<in> {0..<n * n}" using offset_less [of y n x] by simp
next
  fix idx assume a: "idx \<in> {0..<n * n}"
  then have "0 < n" by (cases n) simp_all
  then have "idx mod n < n" by simp
  moreover have "idx div n < n" using a by (simp add: less_mult_imp_div_less)
  moreover have "idx = snd (idx mod n, idx div n) * n + fst (idx mod n, idx div n)" by simp
  ultimately show "idx \<in> (\<lambda>g. snd g * n + fst g) ` {g. fst g < n \<and> snd g < n}"
    by (intro image_eqI [where x = "(idx mod n, idx div n)"]) simp_all
qed

lemma launch_result:
  assumes "n * n \<le> 2147483647" "length A = n * n" "length B = n * n" "length C = n * n"
    and gs: "set gs = set (global_ids n n)"
  shows "run_items modes A B (int n) gs (C, []) =
    Some (map (\<lambda>idx. dot_with (modes (idx mod n, idx div n)) A B n (idx div n) (idx mod n))
            [0..<n * n],
          map (\<lambda>g. int (snd g * n + fst g)) gs)"
proof -
  let ?h = "\<lambda>g. snd g * n + fst g"
  let ?v = "\<lambda>g. dot_with (modes g) A B n (snd g) (fst g)"
  let ?w = "\<lambda>idx. dot_with (modes (idx mod n, idx div n)) A B n (idx div n) (idx mod n)"
  let ?F = "fold (\<lambda>g C. C[?h g := ?v g]) gs C"
  have mem: "fst g < n \<and> snd g < n" if "g \<in> set gs" for g
    using that gs in_global_ids [of g n n] by blast
  have ids: "set gs = {g. fst g < n \<and> snd g < n}"
  proof (intro equalityI subsetI)
    fix g assume "g \<in> set gs"
    then show "g \<in> {g. fst g < n \<and> snd g < n}" using mem by blast
  next
    fix g assume "g \<in> {g. fst g < n \<and> snd g < n}"
    then show "g \<in> set gs" using gs in_global_ids [of g n n] by blast
  qed
  have all: "\<forall>g\<in>set gs. fst g < n \<and> snd g < n" using mem by blast
  have run: "run_items modes A B (int n) gs (C, []) = Some (?F, [] @ map (\<lambda>g. int (?h g)) gs)"
    using all assms(4) by (rule run_items_fold [OF assms(1,2,3)])
  have vw: "?v g = ?w (?h g)" if "g \<in> set gs" for g
  proof -
    have "fst g < n" using mem [OF that] by simp
    then have "(?h g mod n, ?h g div n) = g" by simp
    then show ?thesis using \<open>fst g < n\<close> by simp
  qed
  have len: "length ?F = n * n"
    by (simp only: fold_update_length assms(4))
  have "?F = map ?w [0..<n * n]"
  proof (rule nth_equalityI)
    show "length ?F = length (map ?w [0..<n * n])"
      by (simp add: len)
  next
    fix idx assume "idx < length ?F"
    then have idx: "idx < n * n" by (simp only: len)
    then have "idx \<in> {0..<n * n}" by simp
    then have "idx \<in> ?h ` set gs" by (simp only: ids cells_of_ids)
    moreover have "idx < length C" using idx assms(4) by simp
    ultimately have "?F ! idx = ?w idx"
      using fold_update_nth [of gs ?v ?w ?h idx C, OF vw] by (simp only: if_True)
    then show "?F ! idx = map ?w [0..<n * n] ! idx"
      using idx by simp
  qed
  then show ?thesis using run by simp
qed

lemma launch_nth:
  assumes "i < n" "j < n"
  shows "map (\<lambda>idx. dot_with (modes (idx mod n, idx div n)) A B n (idx div n) (idx mod n))
      [0..<n * n] ! (i * n + j) = dot_with (modes (j, i)) A B n i j"
proof -
  have "i * n + j < n * n" using assms by (rule offset_less)
  then show ?thesis using assms(2) by simp
qed

lemma offsets_global_ids:
  "map (\<lambda>g. int (snd g * n + fst g)) (global_ids n n) = map int [0..<n * n]"
  using rows_concat [of int n n] by (simp add: global_ids_def map_concat comp_def)

lemma matmul_ref_nth:
  assumes "i < n" "j < n"
  shows "matmul_ref A B n ! (i * n + j) = dot_ref A B n i j"
proof -
  have "i * n + j < n * n" using assms by (rule offset_less)
  then have "matmul_ref A B n ! (i * n + j) =
      dot_ref A B n ((i * n + j) div n) ((i * n + j) mod n)"
    by (simp add: matmul_ref_map)
  then show ?thesis using assms(2) by simp
qed

lemma matrix_size_fits: "MATRIX_SIZE * MATRIX_SIZE \<le> 2147483647"
  by (simp add: MATRIX_SIZE_def)

lemma sized: "(4::rat) * of_nat MATRIX_SIZE * (W / 2 ^ 24 + 1 / 2 ^ 123) = W / 8192 + 1 / 2 ^ 112"
  by (simp add: MATRIX_SIZE_def field_simps)

lemma cell_error:
  assumes "length a = MATRIX_SIZE * MATRIX_SIZE" "length b = MATRIX_SIZE * MATRIX_SIZE"
    and "i < MATRIX_SIZE" "j < MATRIX_SIZE"
    and "abs_dot a b MATRIX_SIZE i j \<le> 2 ^ 125"
    and "(\<forall>k. \<not> flushes_in (mode k)) \<or> (\<forall>x\<in>set a \<union> set b. x = 0 \<or> 1 / 2 ^ 126 \<le> \<bar>x\<bar>)"
  shows "\<exists>c. dot_with mode (map Finite a) (map Finite b) MATRIX_SIZE i j = Finite c
    \<and> \<bar>c - exact_dot a b MATRIX_SIZE i j\<bar> \<le> abs_dot a b MATRIX_SIZE i j / 8192 + 1 / 2 ^ 112"
proof -
  let ?n = MATRIX_SIZE
  have A: "map Finite a ! (i * ?n + k) = Finite (a ! (i * ?n + k))
      \<and> (\<not> flushes_in (mode (int k)) \<or> a ! (i * ?n + k) = 0 \<or> 1 / 2 ^ 126 \<le> \<bar>a ! (i * ?n + k)\<bar>)"
    if "k < ?n" for k
  proof -
    have lt: "i * ?n + k < length a" using offset_less [OF assms(3) that] assms(1) by simp
    then have "a ! (i * ?n + k) \<in> set a \<union> set b" by simp
    then show ?thesis using lt assms(6) by auto
  qed
  have B: "map Finite b ! (k * ?n + j) = Finite (b ! (k * ?n + j))
      \<and> (\<not> flushes_in (mode (int k)) \<or> b ! (k * ?n + j) = 0 \<or> 1 / 2 ^ 126 \<le> \<bar>b ! (k * ?n + j)\<bar>)"
    if "k < ?n" for k
  proof -
    have lt: "k * ?n + j < length b" using offset_less [OF that assms(4)] assms(2) by simp
    then have "b ! (k * ?n + j) \<in> set a \<union> set b" by simp
    then show ?thesis using lt assms(6) by auto
  qed
  have n: "4 * ?n \<le> 2 ^ 24" by (simp add: MATRIX_SIZE_def)
  have W: "(\<Sum>k<?n. \<bar>a ! (i * ?n + k) * b ! (k * ?n + j)\<bar>) \<le> 2 ^ 125"
    using assms(5) by (simp only: abs_dot_def)
  show ?thesis
    using dot_error [of ?n "map Finite a" i "\<lambda>k. a ! (i * ?n + k)" "\<lambda>k. mode (int k)"
        "map Finite b" j "\<lambda>k. b ! (k * ?n + j)" ?n, OF A B n W order_refl]
    by (simp only: dot_with_def exact_dot_def abs_dot_def sized)
qed

text \<open>
  C1, amended. For \<open>N = 512\<close>, whatever the order in which the device runs the
  work-items of the \<open>N \<times> N\<close> index space and whatever the modes in which it computes
  (fusing a product and a sum or not, flushing denormalised numbers or not), the launch
  is defined and the offsets it stores to are the offsets \<open>0, \<dots>, N * N - 1\<close> of the
  output buffer, each exactly once. The cell \<open>i * N + j\<close> holds the sum over \<open>k\<close> of
  \<open>A[i * N + k] * B[k * N + j]\<close>, accumulated in single precision from \<open>0\<close> in the
  order of \<open>k\<close>. On a device that neither fuses nor flushes the buffer is, bit for bit,
  the one the three nested loops of the reference compute. With finite elements, zero
  or normal unless the device reads denormalised operands as they are, and when the
  sum \<open>W\<close> of the magnitudes of the products of a cell is at most \<open>2 ^ 125\<close>, so that
  nothing overflows, the cell and the reference are finite, each within
  \<open>W / 8192 + 1 / 2 ^ 112\<close> of the sum of the products and so within twice that of each
  other.
\<close>

theorem launch_writes_every_cell_once:
  assumes "length A = MATRIX_SIZE * MATRIX_SIZE"
    and "length B = MATRIX_SIZE * MATRIX_SIZE"
    and "length C = MATRIX_SIZE * MATRIX_SIZE"
    and "mset gs = mset (global_ids MATRIX_SIZE MATRIX_SIZE)"
  shows "\<exists>C' ws. run_items modes A B (int MATRIX_SIZE) gs (C, []) = Some (C', ws)
    \<and> mset ws = mset (map int [0..<MATRIX_SIZE * MATRIX_SIZE])
    \<and> length C' = MATRIX_SIZE * MATRIX_SIZE
    \<and> (\<forall>i<MATRIX_SIZE. \<forall>j<MATRIX_SIZE.
          C' ! (i * MATRIX_SIZE + j) = dot_with (modes (j, i)) A B MATRIX_SIZE i j)
    \<and> ((\<forall>g k. modes g k = ieee) \<longrightarrow> C' = matmul_ref A B MATRIX_SIZE)
    \<and> (\<forall>a b. A = map Finite a \<and> B = map Finite b
          \<and> ((\<forall>g k. \<not> flushes_in (modes g k))
              \<or> (\<forall>x\<in>set a \<union> set b. x = 0 \<or> 1 / 2 ^ 126 \<le> \<bar>x\<bar>)) \<longrightarrow>
          (\<forall>i<MATRIX_SIZE. \<forall>j<MATRIX_SIZE. abs_dot a b MATRIX_SIZE i j \<le> 2 ^ 125 \<longrightarrow>
             (\<exists>c r. C' ! (i * MATRIX_SIZE + j) = Finite c
                \<and> matmul_ref A B MATRIX_SIZE ! (i * MATRIX_SIZE + j) = Finite r
                \<and> \<bar>c - exact_dot a b MATRIX_SIZE i j\<bar> \<le>
                    abs_dot a b MATRIX_SIZE i j / 8192 + 1 / 2 ^ 112
                \<and> \<bar>r - exact_dot a b MATRIX_SIZE i j\<bar> \<le>
                    abs_dot a b MATRIX_SIZE i j / 8192 + 1 / 2 ^ 112
                \<and> \<bar>c - r\<bar> \<le> abs_dot a b MATRIX_SIZE i j / 4096 + 1 / 2 ^ 111)))"
proof -
  let ?n = MATRIX_SIZE
  let ?h = "\<lambda>g. int (snd g * ?n + fst g)"
  let ?w = "\<lambda>idx. dot_with (modes (idx mod ?n, idx div ?n)) A B ?n (idx div ?n) (idx mod ?n)"
  let ?C = "map ?w [0..<?n * ?n]"
  have "set gs = set (global_ids ?n ?n)"
    using assms(4) by (rule mset_eq_setD)
  then have run: "run_items modes A B (int ?n) gs (C, []) = Some (?C, map ?h gs)"
    by (rule launch_result [OF matrix_size_fits assms(1,2,3)])
  have "mset (map ?h gs) = image_mset ?h (mset gs)" by simp
  also have "\<dots> = mset (map ?h (global_ids ?n ?n))" by (simp only: assms(4) mset_map)
  also have "\<dots> = mset (map int [0..<?n * ?n])" by (simp only: offsets_global_ids)
  finally have once: "mset (map ?h gs) = mset (map int [0..<?n * ?n])" .
  have len: "length ?C = ?n * ?n" by simp
  have cell: "?C ! (i * ?n + j) = dot_with (modes (j, i)) A B ?n i j"
    if "i < ?n" "j < ?n" for i j
    using that by (rule launch_nth)
  then have cells: "\<forall>i<?n. \<forall>j<?n. ?C ! (i * ?n + j) = dot_with (modes (j, i)) A B ?n i j"
    by blast
  have plain: "?C = matmul_ref A B ?n" if "\<forall>g k. modes g k = ieee"
  proof -
    have "modes = (\<lambda>g k. ieee)" using that by (auto simp: fun_eq_iff)
    then show ?thesis by (simp only: matmul_ref_map dot_ref_with)
  qed
  have close: "\<exists>c r. ?C ! (i * ?n + j) = Finite c
      \<and> matmul_ref A B ?n ! (i * ?n + j) = Finite r
      \<and> \<bar>c - exact_dot a b ?n i j\<bar> \<le> abs_dot a b ?n i j / 8192 + 1 / 2 ^ 112
      \<and> \<bar>r - exact_dot a b ?n i j\<bar> \<le> abs_dot a b ?n i j / 8192 + 1 / 2 ^ 112
      \<and> \<bar>c - r\<bar> \<le> abs_dot a b ?n i j / 4096 + 1 / 2 ^ 111"
    if ab: "A = map Finite a \<and> B = map Finite b
        \<and> ((\<forall>g k. \<not> flushes_in (modes g k))
            \<or> (\<forall>x\<in>set a \<union> set b. x = 0 \<or> 1 / 2 ^ 126 \<le> \<bar>x\<bar>))"
      and ij: "i < ?n" "j < ?n"
      and W: "abs_dot a b ?n i j \<le> 2 ^ 125" for a b i j
  proof -
    define T where "T = abs_dot a b ?n i j / 8192 + 1 / 2 ^ 112"
    have la: "length a = ?n * ?n" and lb: "length b = ?n * ?n"
      using ab assms(1,2) by auto
    have dev: "(\<forall>k. \<not> flushes_in (modes (j, i) k))
        \<or> (\<forall>x\<in>set a \<union> set b. x = 0 \<or> 1 / 2 ^ 126 \<le> \<bar>x\<bar>)"
      using ab by blast
    have ref: "(\<forall>k :: int. \<not> flushes_in ieee)
        \<or> (\<forall>x\<in>set a \<union> set b. x = 0 \<or> 1 / 2 ^ 126 \<le> \<bar>x\<bar>)"
      by (simp add: ieee_def)
    obtain c where c: "dot_with (modes (j, i)) A B ?n i j = Finite c"
      and ce: "\<bar>c - exact_dot a b ?n i j\<bar> \<le> T"
      using cell_error [OF la lb ij W dev] ab unfolding T_def by blast
    obtain r where r: "dot_with (\<lambda>k. ieee) A B ?n i j = Finite r"
      and re: "\<bar>r - exact_dot a b ?n i j\<bar> \<le> T"
      using cell_error [OF la lb ij W ref] ab unfolding T_def by blast
    have T2: "abs_dot a b ?n i j / 4096 + 1 / 2 ^ 111 = 2 * T" by (simp add: T_def)
    have "\<bar>c - r\<bar> \<le> 2 * T" using ce re by linarith
    then have cr: "\<bar>c - r\<bar> \<le> abs_dot a b ?n i j / 4096 + 1 / 2 ^ 111" by (simp only: T2)
    have "?C ! (i * ?n + j) = Finite c" using cell [OF ij] c by simp
    moreover have "matmul_ref A B ?n ! (i * ?n + j) = Finite r"
      using matmul_ref_nth [OF ij, of A B] r by (simp only: dot_ref_with)
    ultimately show ?thesis using ce re cr unfolding T_def by blast
  qed
  show ?thesis
    apply (rule exI [where x = ?C])
    apply (rule exI [where x = "map ?h gs"])
    using run once len cells plain close
    apply blast
    done
qed

lemma replicate_dots:
  assumes "i < n" "j < n"
  shows "exact_dot (replicate (n * n) x) (replicate (n * n) y) n i j = of_nat n * (x * y)"
    and "abs_dot (replicate (n * n) x) (replicate (n * n) y) n i j = of_nat n * \<bar>x * y\<bar>"
proof -
  have "replicate (n * n) x ! (i * n + k) * replicate (n * n) y ! (k * n + j) = x * y"
    if "k \<in> {..<n}" for k
    using that offset_less [OF assms(1), of k] offset_less [OF _ assms(2), of k] by simp
  then show "exact_dot (replicate (n * n) x) (replicate (n * n) y) n i j = of_nat n * (x * y)"
    "abs_dot (replicate (n * n) x) (replicate (n * n) y) n i j = of_nat n * \<bar>x * y\<bar>"
    by (simp_all add: exact_dot_def abs_dot_def)
qed

theorem launch_writes_every_cell_once_witness:
  "\<exists>C' ws c r w2.
      run_items (\<lambda>g k. \<lparr>fuses = even k, flushes_in = True, flushes_out = True\<rparr>)
        (map Finite (replicate (MATRIX_SIZE * MATRIX_SIZE) (1 / 3)))
        (map Finite (replicate (MATRIX_SIZE * MATRIX_SIZE) 3)) (int MATRIX_SIZE)
        (rev (global_ids MATRIX_SIZE MATRIX_SIZE)) (replicate (MATRIX_SIZE * MATRIX_SIZE) NaN, [])
      = Some (C', ws)
    \<and> mset ws = mset (map int [0..<MATRIX_SIZE * MATRIX_SIZE])
    \<and> C' ! 0 = Finite c
    \<and> matmul_ref (map Finite (replicate (MATRIX_SIZE * MATRIX_SIZE) (1 / 3)))
        (map Finite (replicate (MATRIX_SIZE * MATRIX_SIZE) 3)) MATRIX_SIZE ! 0 = Finite r
    \<and> \<bar>c - 512\<bar> \<le> 1 / 16 + 1 / 2 ^ 112
    \<and> \<bar>c - r\<bar> \<le> 1 / 8 + 1 / 2 ^ 111
    \<and> run_items (\<lambda>g k. ieee)
        (map Finite (replicate (MATRIX_SIZE * MATRIX_SIZE) (1 / 3)))
        (map Finite (replicate (MATRIX_SIZE * MATRIX_SIZE) 3)) (int MATRIX_SIZE)
        (global_ids MATRIX_SIZE MATRIX_SIZE) (replicate (MATRIX_SIZE * MATRIX_SIZE) NaN, [])
      = Some (matmul_ref (map Finite (replicate (MATRIX_SIZE * MATRIX_SIZE) (1 / 3)))
               (map Finite (replicate (MATRIX_SIZE * MATRIX_SIZE) 3)) MATRIX_SIZE, w2)"
proof -
  let ?n = MATRIX_SIZE
  let ?a = "replicate (?n * ?n) (1 / 3 :: rat)" and ?b = "replicate (?n * ?n) (3 :: rat)"
  let ?m = "\<lambda>(g :: nat \<times> nat) (k :: int). \<lparr>fuses = even k, flushes_in = True, flushes_out = True\<rparr>"
  have z: "0 < ?n" by (simp add: MATRIX_SIZE_def)
  have E: "exact_dot ?a ?b ?n 0 0 = 512" and W: "abs_dot ?a ?b ?n 0 0 = 512"
    using replicate_dots [OF z z, of "1 / 3" 3] by (simp_all add: MATRIX_SIZE_def)
  have small: "abs_dot ?a ?b ?n 0 0 \<le> 2 ^ 125" unfolding W by simp
  have normal: "\<forall>x\<in>set ?a \<union> set ?b. x = 0 \<or> 1 / 2 ^ 126 \<le> \<bar>x\<bar>" by auto
  have l: "length (map Finite ?a) = ?n * ?n" "length (map Finite ?b) = ?n * ?n"
    "length (replicate (?n * ?n) NaN) = ?n * ?n"
    "mset (rev (global_ids ?n ?n)) = mset (global_ids ?n ?n)"
    by simp_all
  have l': "mset (global_ids ?n ?n) = mset (global_ids ?n ?n)" by simp
  from launch_writes_every_cell_once [OF l, of ?m]
  obtain C' ws where run: "run_items ?m (map Finite ?a) (map Finite ?b) (int ?n)
        (rev (global_ids ?n ?n)) (replicate (?n * ?n) NaN, []) = Some (C', ws)"
    and once: "mset ws = mset (map int [0..<?n * ?n])"
    and close: "\<forall>a b. map Finite ?a = map Finite a \<and> map Finite ?b = map Finite b
          \<and> ((\<forall>g k. \<not> flushes_in (?m g k))
              \<or> (\<forall>x\<in>set a \<union> set b. x = 0 \<or> 1 / 2 ^ 126 \<le> \<bar>x\<bar>)) \<longrightarrow>
          (\<forall>i<?n. \<forall>j<?n. abs_dot a b ?n i j \<le> 2 ^ 125 \<longrightarrow>
             (\<exists>c r. C' ! (i * ?n + j) = Finite c
                \<and> matmul_ref (map Finite ?a) (map Finite ?b) ?n ! (i * ?n + j) = Finite r
                \<and> \<bar>c - exact_dot a b ?n i j\<bar> \<le> abs_dot a b ?n i j / 8192 + 1 / 2 ^ 112
                \<and> \<bar>r - exact_dot a b ?n i j\<bar> \<le> abs_dot a b ?n i j / 8192 + 1 / 2 ^ 112
                \<and> \<bar>c - r\<bar> \<le> abs_dot a b ?n i j / 4096 + 1 / 2 ^ 111))"
    by (elim exE conjE)
  have "\<exists>c r. C' ! (0 * ?n + 0) = Finite c
      \<and> matmul_ref (map Finite ?a) (map Finite ?b) ?n ! (0 * ?n + 0) = Finite r
      \<and> \<bar>c - exact_dot ?a ?b ?n 0 0\<bar> \<le> abs_dot ?a ?b ?n 0 0 / 8192 + 1 / 2 ^ 112
      \<and> \<bar>r - exact_dot ?a ?b ?n 0 0\<bar> \<le> abs_dot ?a ?b ?n 0 0 / 8192 + 1 / 2 ^ 112
      \<and> \<bar>c - r\<bar> \<le> abs_dot ?a ?b ?n 0 0 / 4096 + 1 / 2 ^ 111"
    using close z small normal by blast
  then obtain c r where cr: "C' ! 0 = Finite c"
    "matmul_ref (map Finite ?a) (map Finite ?b) ?n ! 0 = Finite r"
    "\<bar>c - 512\<bar> \<le> 1 / 16 + 1 / 2 ^ 112" "\<bar>c - r\<bar> \<le> 1 / 8 + 1 / 2 ^ 111"
    unfolding E W by auto
  from launch_writes_every_cell_once [OF l(1,2,3) l', of "\<lambda>g k. ieee"]
  obtain C2 w2 where run2: "run_items (\<lambda>g k. ieee) (map Finite ?a) (map Finite ?b) (int ?n)
        (global_ids ?n ?n) (replicate (?n * ?n) NaN, []) = Some (C2, w2)"
    and plain: "(\<forall>(g :: nat \<times> nat) (k :: int). ieee = ieee) \<longrightarrow>
        C2 = matmul_ref (map Finite ?a) (map Finite ?b) ?n"
    by (elim exE conjE)
  have C2: "C2 = matmul_ref (map Finite ?a) (map Finite ?b) ?n" using plain by simp
  show ?thesis using run once cr run2 C2 by blast
qed

lemma foldl_stays: "\<forall>k\<in>set ks. step acc k = acc \<Longrightarrow> foldl step acc ks = acc"
  by (induction ks) simp_all

lemma overflow_head:
  "overflow_A ! 0 = 2 ^ 64" "overflow_A ! 1 = 2 ^ 64" "overflow_A ! Suc 0 = 2 ^ 64"
  "overflow_A ! 2 = - (2 ^ 64)"
  "overflow_B ! 0 = 2 ^ 63" "overflow_B ! MATRIX_SIZE = 2 ^ 63" "overflow_B ! (2 * MATRIX_SIZE) = 2 ^ 64"
  by (simp_all add: overflow_A_def overflow_B_def MATRIX_SIZE_def)

lemma overflow_tail:
  assumes "3 \<le> k" "k < MATRIX_SIZE"
  shows "overflow_A ! k = 0" "overflow_B ! (k * MATRIX_SIZE) = 0"
proof -
  show "overflow_A ! k = 0"
    using assms by (simp add: overflow_A_def nth_append MATRIX_SIZE_def)
  have "k * MATRIX_SIZE < MATRIX_SIZE * MATRIX_SIZE" using assms(2) by simp
  moreover have "k * MATRIX_SIZE \<noteq> 0" "k * MATRIX_SIZE \<noteq> MATRIX_SIZE"
    "k * MATRIX_SIZE \<noteq> 2 * MATRIX_SIZE"
    using assms(1) by (simp_all add: MATRIX_SIZE_def)
  ultimately show "overflow_B ! (k * MATRIX_SIZE) = 0"
    by (simp add: overflow_B_def)
qed

lemma overflow_length:
  "length overflow_A = MATRIX_SIZE * MATRIX_SIZE" "length overflow_B = MATRIX_SIZE * MATRIX_SIZE"
  by (simp_all add: overflow_A_def overflow_B_def MATRIX_SIZE_def)

lemma overflow_steps:
  "mac contracted (Finite 0) (Finite (2 ^ 64)) (Finite (2 ^ 63)) = Finite (2 ^ 127)"
  "mac contracted (Finite (2 ^ 127)) (Finite (2 ^ 64)) (Finite (2 ^ 63)) = PInf"
  "mac contracted PInf (Finite (- (2 ^ 64))) (Finite (2 ^ 64)) = PInf"
  "mac contracted PInf (Finite 0) (Finite 0) = PInf"
  "mac ieee (Finite 0) (Finite (2 ^ 64)) (Finite (2 ^ 63)) = Finite (2 ^ 127)"
  "mac ieee (Finite (2 ^ 127)) (Finite (2 ^ 64)) (Finite (2 ^ 63)) = PInf"
  "mac ieee PInf (Finite (- (2 ^ 64))) (Finite (2 ^ 64)) = NaN"
  "mac ieee NaN (Finite 0) (Finite 0) = NaN"
  by code_simp+


lemma overflow_nth:
  assumes "k < MATRIX_SIZE"
  shows "map Finite overflow_A ! (0 * MATRIX_SIZE + k) = Finite (overflow_A ! k)"
    and "map Finite overflow_B ! (k * MATRIX_SIZE + 0) = Finite (overflow_B ! (k * MATRIX_SIZE))"
proof -
  have "k < MATRIX_SIZE * MATRIX_SIZE" using assms by (simp add: MATRIX_SIZE_def)
  then show "map Finite overflow_A ! (0 * MATRIX_SIZE + k) = Finite (overflow_A ! k)"
    by (simp add: overflow_length)
  have "k * MATRIX_SIZE < MATRIX_SIZE * MATRIX_SIZE" using assms by simp
  then show "map Finite overflow_B ! (k * MATRIX_SIZE + 0) = Finite (overflow_B ! (k * MATRIX_SIZE))"
    by (simp add: overflow_length)
qed

lemma overflow_split: "[0..<MATRIX_SIZE] = [0, 1, 2] @ [3..<MATRIX_SIZE]"
proof -
  have "[0..<3 + (MATRIX_SIZE - 3)] = [0..<3] @ [3..<3 + (MATRIX_SIZE - 3)]"
    using upt_add_eq_append [of 0 3 "MATRIX_SIZE - 3"] by simp
  moreover have "3 + (MATRIX_SIZE - 3) = MATRIX_SIZE" by (simp add: MATRIX_SIZE_def)
  moreover have "[0..<3] = [0, 1, 2::nat]" by (simp add: upt_rec)
  ultimately show ?thesis by simp
qed

lemma overflow_dot:
  "dot_with (\<lambda>k. contracted) (map Finite overflow_A) (map Finite overflow_B) MATRIX_SIZE 0 0 = PInf"
  "dot_with (\<lambda>k. ieee) (map Finite overflow_A) (map Finite overflow_B) MATRIX_SIZE 0 0 = NaN"
proof -
  let ?A = "map Finite overflow_A" and ?B = "map Finite overflow_B"
  let ?n = MATRIX_SIZE
  have n: "0 < ?n" "1 < ?n" "2 < ?n" by (simp_all add: MATRIX_SIZE_def)
  have h: "?A ! (0 * ?n + 0) = Finite (2 ^ 64)" "?B ! (0 * ?n + 0) = Finite (2 ^ 63)"
    "?A ! (0 * ?n + 1) = Finite (2 ^ 64)" "?B ! (1 * ?n + 0) = Finite (2 ^ 63)"
    "?A ! (0 * ?n + 2) = Finite (- (2 ^ 64))" "?B ! (2 * ?n + 0) = Finite (2 ^ 64)"
    using overflow_nth [OF n(1)] overflow_nth [OF n(2)] overflow_nth [OF n(3)]
    by (simp_all add: overflow_head)
  have t: "?A ! (0 * ?n + k) = Finite 0 \<and> ?B ! (k * ?n + 0) = Finite 0"
    if "k \<in> set [3..<?n]" for k
  proof -
    have k: "3 \<le> k" "k < ?n" using that by simp_all
    show ?thesis using overflow_nth [OF k(2)] overflow_tail [OF k] by simp
  qed
  have tail: "foldl (\<lambda>acc k. mac b acc (?A ! (0 * ?n + k)) (?B ! (k * ?n + 0))) x [3..<?n] = x"
    if "mac b x (Finite 0) (Finite 0) = x" for b x
    using t that by (intro foldl_stays) simp
  show "dot_with (\<lambda>k. contracted) ?A ?B ?n 0 0 = PInf"
    unfolding dot_with_def overflow_split foldl_append
    by (simp only: foldl_Cons foldl_Nil h overflow_steps tail)
  show "dot_with (\<lambda>k. ieee) ?A ?B ?n 0 0 = NaN"
    unfolding dot_with_def overflow_split foldl_append
    by (simp only: foldl_Cons foldl_Nil h overflow_steps tail)
qed

lemma overflow_exact: "exact_dot overflow_A overflow_B MATRIX_SIZE 0 0 = 0"
proof -
  let ?f = "\<lambda>k. overflow_A ! (0 * MATRIX_SIZE + k) * overflow_B ! (k * MATRIX_SIZE + 0)"
  have "sum ?f {0..<3} + sum ?f {3..<MATRIX_SIZE} = sum ?f {0..<MATRIX_SIZE}"
    by (rule sum.atLeastLessThan_concat) (simp_all add: MATRIX_SIZE_def)
  moreover have "sum ?f {3..<MATRIX_SIZE} = 0"
    using overflow_tail by (intro sum.neutral) simp
  moreover have "{0..<3} = {0, 1, 2::nat}" by auto
  then have "sum ?f {0..<3} = 0" by (simp add: overflow_head)
  ultimately show ?thesis by (simp add: exact_dot_def lessThan_atLeast0)
qed

text \<open>
  The claim C1 fails when the accumulation overflows. With the two matrices of the
  example the sum of the products of the cell \<open>(0, 0)\<close> is 0; a device that fuses
  every product and sum writes \<open>+\<infinity>\<close> there, one that fuses none writes a NaN, which is
  also what the reference computes. Neither flushes anything.
\<close>

theorem overflow_exceeds_tolerance:
  "\<exists>Cf wf Cu wu.
      run_items (\<lambda>g k. contracted) (map Finite overflow_A) (map Finite overflow_B) (int MATRIX_SIZE)
        (global_ids MATRIX_SIZE MATRIX_SIZE) (replicate (MATRIX_SIZE * MATRIX_SIZE) NaN, [])
      = Some (Cf, wf)
    \<and> run_items (\<lambda>g k. ieee) (map Finite overflow_A) (map Finite overflow_B) (int MATRIX_SIZE)
        (global_ids MATRIX_SIZE MATRIX_SIZE) (replicate (MATRIX_SIZE * MATRIX_SIZE) NaN, [])
      = Some (Cu, wu)
    \<and> Cf ! 0 = PInf \<and> Cu ! 0 = NaN
    \<and> matmul_ref (map Finite overflow_A) (map Finite overflow_B) MATRIX_SIZE ! 0 = NaN
    \<and> exact_dot overflow_A overflow_B MATRIX_SIZE 0 0 = 0"
proof -
  let ?A = "map Finite overflow_A" and ?B = "map Finite overflow_B"
  let ?n = MATRIX_SIZE
  let ?w = "\<lambda>c idx. dot_with (c (idx mod ?n, idx div ?n)) ?A ?B ?n (idx div ?n) (idx mod ?n)"
  have z: "0 < ?n" by (simp add: MATRIX_SIZE_def)
  have run: "run_items c ?A ?B (int ?n) (global_ids ?n ?n) (replicate (?n * ?n) NaN, []) =
      Some (map (?w c) [0..<?n * ?n], map (\<lambda>g. int (snd g * ?n + fst g)) (global_ids ?n ?n))" for c
    by (rule launch_result [OF matrix_size_fits]) (simp_all add: overflow_length)
  have cell: "map (?w c) [0..<?n * ?n] ! 0 = dot_with (c (0, 0)) ?A ?B ?n 0 0" for c
    using launch_nth [OF z z, of c ?A ?B] by simp
  have ref: "matmul_ref ?A ?B ?n ! 0 = NaN"
    using matmul_ref_nth [OF z z, of ?A ?B] by (simp add: dot_ref_with overflow_dot)
  show ?thesis
    using run [of "\<lambda>g k. contracted"] run [of "\<lambda>g k. ieee"] cell [of "\<lambda>g k. contracted"]
      cell [of "\<lambda>g k. ieee"] ref overflow_exact
    by (simp add: overflow_dot)
qed

text \<open>
  C10. For \<open>N = 512\<close> and every work-item \<open>(row, col)\<close> of the \<open>N \<times> N\<close> index space,
  the products and sums \<open>row * N + k\<close>, \<open>k * N + col\<close> and \<open>row * N + col\<close> are computed
  in 32-bit arithmetic without overflow, the three offsets lie in the buffers of \<open>N * N\<close>
  elements, so that the work-item is defined, and no offset exceeds \<open>262143 < 2 ^ 31\<close>.
\<close>

theorem kernel_indices_in_bounds:
  assumes "row < MATRIX_SIZE" and "col < MATRIX_SIZE" and "k < MATRIX_SIZE"
    and "length A = MATRIX_SIZE * MATRIX_SIZE"
    and "length B = MATRIX_SIZE * MATRIX_SIZE"
    and "length C = MATRIX_SIZE * MATRIX_SIZE"
  shows "imul (int row) (int MATRIX_SIZE) = Some (int (row * MATRIX_SIZE))
    \<and> iadd (int (row * MATRIX_SIZE)) (int k) = Some (int (row * MATRIX_SIZE + k))
    \<and> load A (int (row * MATRIX_SIZE + k)) = Some (A ! (row * MATRIX_SIZE + k))
    \<and> imul (int k) (int MATRIX_SIZE) = Some (int (k * MATRIX_SIZE))
    \<and> iadd (int (k * MATRIX_SIZE)) (int col) = Some (int (k * MATRIX_SIZE + col))
    \<and> load B (int (k * MATRIX_SIZE + col)) = Some (B ! (k * MATRIX_SIZE + col))
    \<and> (\<exists>v. matmul mode A B (int MATRIX_SIZE) (col, row) = Some (int (row * MATRIX_SIZE + col), v)
          \<and> store C (int (row * MATRIX_SIZE + col)) v = Some (C[row * MATRIX_SIZE + col := v]))
    \<and> row * MATRIX_SIZE + k < MATRIX_SIZE * MATRIX_SIZE
    \<and> k * MATRIX_SIZE + col < MATRIX_SIZE * MATRIX_SIZE
    \<and> row * MATRIX_SIZE + col < MATRIX_SIZE * MATRIX_SIZE
    \<and> row * MATRIX_SIZE + k \<le> 262143
    \<and> k * MATRIX_SIZE + col \<le> 262143
    \<and> row * MATRIX_SIZE + col \<le> 262143
    \<and> (262143 :: int) < 2 ^ 31"
proof -
  let ?n = MATRIX_SIZE
  have rk: "row * ?n + k < ?n * ?n" using assms(1,3) by (rule offset_less)
  have kc: "k * ?n + col < ?n * ?n" using assms(3,2) by (rule offset_less)
  have rc: "row * ?n + col < ?n * ?n" using assms(1,2) by (rule offset_less)
  have sq: "?n * ?n = 262144" by (simp add: MATRIX_SIZE_def)
  have 1: "imul (int row) (int ?n) = Some (int (row * ?n))"
    using rk sq by (intro imul_nat) simp
  have 2: "iadd (int (row * ?n)) (int k) = Some (int (row * ?n + k))"
    using rk sq by (intro iadd_nat) simp
  have 3: "load A (int (row * ?n + k)) = Some (A ! (row * ?n + k))"
    using rk assms(4) by (intro load_nat) simp
  have 4: "imul (int k) (int ?n) = Some (int (k * ?n))"
    using kc sq by (intro imul_nat) simp
  have 5: "iadd (int (k * ?n)) (int col) = Some (int (k * ?n + col))"
    using kc sq by (intro iadd_nat) simp
  have 6: "load B (int (k * ?n + col)) = Some (B ! (k * ?n + col))"
    using kc assms(5) by (intro load_nat) simp
  have item: "matmul mode A B (int ?n) (col, row) =
      Some (int (row * ?n + col), dot_with mode A B ?n row col)"
    using assms(1,2) matrix_size_fits assms(4,5) by (rule matmul_item)
  have st: "store C (int (row * ?n + col)) (dot_with mode A B ?n row col) =
      Some (C[row * ?n + col := dot_with mode A B ?n row col])"
    using rc assms(6) by (intro store_nat) simp
  have 7: "\<exists>v. matmul mode A B (int ?n) (col, row) = Some (int (row * ?n + col), v)
      \<and> store C (int (row * ?n + col)) v = Some (C[row * ?n + col := v])"
    using item st by blast
  have 8: "row * ?n + k \<le> 262143" "k * ?n + col \<le> 262143" "row * ?n + col \<le> 262143"
    using rk kc rc sq by simp_all
  have 9: "(262143 :: int) < 2 ^ 31" by simp
  show ?thesis using 1 2 3 4 5 6 7 rk kc rc 8 9 by blast
qed

theorem kernel_indices_in_bounds_witness:
  "imul 511 (int MATRIX_SIZE) = Some 261632
    \<and> iadd 261632 511 = Some 262143
    \<and> load (replicate 262144 (Finite 1)) 262143 = Some (Finite 1)
    \<and> (\<exists>v. matmul (\<lambda>k. contracted) (replicate 262144 (Finite 1)) (replicate 262144 (Finite 1))
          (int MATRIX_SIZE) (511, 511) = Some (262143, v))"
  using kernel_indices_in_bounds [of 511 511 511 "replicate 262144 (Finite 1)"
      "replicate 262144 (Finite 1)" "replicate 262144 NaN" "\<lambda>k. contracted"]
  unfolding MATRIX_SIZE_def by auto

section \<open>The matrices and their product are exact\<close>

lemma round32_nat: "n < 16777216 \<Longrightarrow> round32 (of_nat n) = Finite (of_nat n)"
  using round32_int [of "int n"] by simp

lemma fmul_nat:
  "a * b < 16777216 \<Longrightarrow> fmul (Finite (of_nat a)) (Finite (of_nat b)) = Finite (of_nat (a * b))"
  using round32_nat [of "a * b"] by simp

lemma fadd_nat:
  "a + b < 16777216 \<Longrightarrow> fadd (Finite (of_nat a)) (Finite (of_nat b)) = Finite (of_nat (a + b))"
  using round32_nat [of "a + b"] by simp

lemma rand_state_0: "rand_state rnd s 0 = s"
  by (simp add: rand_state_def)

lemma rand_state_shift: "rand_state rnd (snd (rnd s)) k = rand_state rnd s (Suc k)"
  unfolding rand_state_def by (induction k) simp_all

lemma rand_value_shift: "rand_value rnd (snd (rnd s)) k = rand_value rnd s (Suc k)"
  by (simp add: rand_value_def rand_state_shift)

lemma fill_loop_result:
  "i \<le> n \<Longrightarrow> length A = n \<Longrightarrow> length B = n \<Longrightarrow>
   fill_loop rnd n i s A B =
     (take i A @ map (\<lambda>k. f32_of_int (rand_value rnd s (2 * (k - i)) smod 100)) [i..<n],
      take i B @ map (\<lambda>k. f32_of_int (rand_value rnd s (2 * (k - i) + 1) smod 100)) [i..<n],
      rand_state rnd s (2 * (n - i)))"
proof (induction "n - i" arbitrary: i s A B)
  case 0
  then show ?case by (simp add: fill_loop.simps rand_state_0)
next
  case (Suc d)
  then have lt: "i < n" by simp
  obtain r1 s1 where c1: "rnd s = (r1, s1)" by (cases "rnd s")
  obtain r2 s2 where c2: "rnd s1 = (r2, s2)" by (cases "rnd s1")
  let ?a = "f32_of_int (r1 smod 100)" and ?b = "f32_of_int (r2 smod 100)"
  have s1: "s1 = snd (rnd s)" and s2: "s2 = snd (rnd (snd (rnd s)))"
    using c1 c2 by simp_all
  have r1: "r1 = rand_value rnd s 0" and r2: "r2 = rand_value rnd s 1"
    using c1 c2 by (simp_all add: rand_value_def rand_state_def)
  have shiftv: "rand_value rnd s2 m = rand_value rnd s (Suc (Suc m))" for m
    by (simp add: s2 rand_value_shift)
  have shifts: "rand_state rnd s2 m = rand_state rnd s (Suc (Suc m))" for m
    by (simp add: s2 rand_state_shift)
  have step: "fill_loop rnd n i s A B = fill_loop rnd n (Suc i) s2 (A[i := ?a]) (B[i := ?b])"
    by (subst fill_loop.simps) (simp add: lt c1 c2)
  have IH: "fill_loop rnd n (Suc i) s2 (A[i := ?a]) (B[i := ?b]) =
     (take (Suc i) (A[i := ?a]) @
        map (\<lambda>k. f32_of_int (rand_value rnd s2 (2 * (k - Suc i)) smod 100)) [Suc i..<n],
      take (Suc i) (B[i := ?b]) @
        map (\<lambda>k. f32_of_int (rand_value rnd s2 (2 * (k - Suc i) + 1) smod 100)) [Suc i..<n],
      rand_state rnd s2 (2 * (n - Suc i)))"
    using Suc.hyps(2) lt Suc.prems by (intro Suc.hyps(1)) simp_all
  have tA: "take (Suc i) (A[i := ?a]) = take i A @ [?a]"
    using lt Suc.prems by (simp add: take_Suc_conv_app_nth)
  have tB: "take (Suc i) (B[i := ?b]) = take i B @ [?b]"
    using lt Suc.prems by (simp add: take_Suc_conv_app_nth)
  have mA: "map (\<lambda>k. f32_of_int (rand_value rnd s2 (2 * (k - Suc i)) smod 100)) [Suc i..<n] =
      map (\<lambda>k. f32_of_int (rand_value rnd s (2 * (k - i)) smod 100)) [Suc i..<n]"
  proof (rule map_cong [OF refl])
    fix k assume "k \<in> set [Suc i..<n]"
    then have "Suc (Suc (2 * (k - Suc i))) = 2 * (k - i)" by auto
    then show "f32_of_int (rand_value rnd s2 (2 * (k - Suc i)) smod 100) =
        f32_of_int (rand_value rnd s (2 * (k - i)) smod 100)"
      by (simp only: shiftv)
  qed
  have mB: "map (\<lambda>k. f32_of_int (rand_value rnd s2 (2 * (k - Suc i) + 1) smod 100)) [Suc i..<n] =
      map (\<lambda>k. f32_of_int (rand_value rnd s (2 * (k - i) + 1) smod 100)) [Suc i..<n]"
  proof (rule map_cong [OF refl])
    fix k assume "k \<in> set [Suc i..<n]"
    then have "Suc (Suc (2 * (k - Suc i) + 1)) = 2 * (k - i) + 1" by auto
    then show "f32_of_int (rand_value rnd s2 (2 * (k - Suc i) + 1) smod 100) =
        f32_of_int (rand_value rnd s (2 * (k - i) + 1) smod 100)"
      by (simp only: shiftv)
  qed
  have st: "rand_state rnd s2 (2 * (n - Suc i)) = rand_state rnd s (2 * (n - i))"
  proof -
    have "Suc (Suc (2 * (n - Suc i))) = 2 * (n - i)" using lt by simp
    then show ?thesis by (simp only: shifts)
  qed
  have up: "[i..<n] = i # [Suc i..<n]" using lt by (rule upt_conv_Cons)
  show ?case
    unfolding step IH tA tB mA mB st up by (simp add: r1 r2)
qed

lemma dot_exact:
  assumes A: "\<And>k. k < n \<Longrightarrow> A ! (i * n + k) = Finite (of_nat (a k)) \<and> a k \<le> 99"
    and B: "\<And>k. k < n \<Longrightarrow> B ! (k * n + j) = Finite (of_nat (b k)) \<and> b k \<le> 99"
    and n: "n * 9801 < 16777216" and m: "m \<le> n"
  shows "foldl (\<lambda>acc k. mac (f k) acc (A ! (i * n + k)) (B ! (k * n + j))) (Finite 0) [0..<m] =
      Finite (of_nat (\<Sum>k<m. a k * b k)) \<and> (\<Sum>k<m. a k * b k) \<le> m * 9801"
proof -
  have A': "A ! (i * n + k) = Finite (of_int (int (a k))) \<and> \<bar>int (a k)\<bar> \<le> 99" if "k < n" for k
    using A [OF that] by simp
  have B': "B ! (k * n + j) = Finite (of_int (int (b k))) \<and> \<bar>int (b k)\<bar> \<le> 99" if "k < n" for k
    using B [OF that] by simp
  have s: "(\<Sum>k<m. int (a k) * int (b k)) = int (\<Sum>k<m. a k * b k)" by simp
  have "foldl (\<lambda>acc k. mac (f k) acc (A ! (i * n + k)) (B ! (k * n + j))) (Finite 0) [0..<m] =
      Finite (of_int (int (\<Sum>k<m. a k * b k))) \<and> \<bar>int (\<Sum>k<m. a k * b k)\<bar> \<le> int m * 9801"
    using dot_int_exact [of n A i "\<lambda>k. int (a k)" B j "\<lambda>k. int (b k)" m f, OF A' B' n m]
    by (simp only: s)
  then show ?thesis by (simp add: of_nat_le_iff [symmetric] del: of_nat_le_iff of_nat_sum of_nat_mult)
qed

lemma smod_100_abs: "\<bar>r smod 100\<bar> \<le> (99 :: int)"
proof -
  have "0 \<le> \<bar>r\<bar> mod 100" "\<bar>r\<bar> mod 100 < 100" by simp_all
  moreover have "\<bar>r smod 100\<bar> = \<bar>sgn r\<bar> * (\<bar>r\<bar> mod 100)"
    by (simp add: signed_modulo_int_def abs_mult)
  moreover have "\<bar>sgn r\<bar> \<le> 1" by (simp add: sgn_if)
  ultimately show ?thesis
    using mult_left_le_one_le [of "\<bar>r\<bar> mod 100" "\<bar>sgn r\<bar>"] by (simp add: mult.commute)
qed

lemma f32_of_smod:
  "f32_of_int (r smod 100) = Finite (of_int (r smod 100)) \<and> \<bar>r smod 100\<bar> \<le> 99"
proof -
  have "\<bar>r smod 100\<bar> < 16777216" using smod_100_abs [of r] by linarith
  then show ?thesis using smod_100_abs [of r] by (simp add: f32_of_int_def round32_int)
qed

lemma smod_100:
  assumes "0 \<le> r"
  shows "r smod 100 = int (nat (r mod 100))" "nat (r mod 100) \<le> 99"
proof -
  have "r smod 100 = r mod 100"
  proof (cases "r = 0")
    case True
    then show ?thesis by simp
  next
    case False
    then have "sgn r = 1" "\<bar>r\<bar> = r" using assms by simp_all
    then show ?thesis by (simp add: signed_modulo_int_def)
  qed
  moreover have "0 \<le> r mod 100" "r mod 100 < 100" by simp_all
  ultimately show "r smod 100 = int (nat (r mod 100))" "nat (r mod 100) \<le> 99" by simp_all
qed

lemma f32_of_int_nat: "n < 16777216 \<Longrightarrow> f32_of_int (int n) = Finite (of_nat n)"
  using round32_nat [of n] by (simp add: f32_of_int_def)

lemma f32_of_rand:
  assumes "0 \<le> r"
  shows "f32_of_int (r smod 100) = Finite (of_nat (nat (r mod 100)))"
proof -
  have "nat (r mod 100) < 16777216" using smod_100(2) [OF assms] by simp
  then show ?thesis by (simp only: smod_100(1) [OF assms] f32_of_int_nat)
qed

lemma initialise_eq:
  "initialise libc env =
     (initial_A libc, initial_B libc,
      rand_state (rand libc) (srand libc 1) (2 * (MATRIX_SIZE * MATRIX_SIZE)))"
  using fill_loop_result [of 0 "MATRIX_SIZE * MATRIX_SIZE"
      "map (host_uninit env MA) [0..<MATRIX_SIZE * MATRIX_SIZE]"
      "map (host_uninit env MB) [0..<MATRIX_SIZE * MATRIX_SIZE]" "rand libc" "srand libc 1"]
  by (simp add: initialise_def initial_A_def initial_B_def Let_def)

lemma length_initial: "length (initial_A libc) = MATRIX_SIZE * MATRIX_SIZE"
  "length (initial_B libc) = MATRIX_SIZE * MATRIX_SIZE"
  by (simp_all add: initial_A_def initial_B_def)

lemma initial_nth:
  assumes "idx < MATRIX_SIZE * MATRIX_SIZE"
  shows "initial_A libc ! idx =
      f32_of_int (rand_value (rand libc) (srand libc 1) (2 * idx) smod 100)"
    and "initial_B libc ! idx =
      f32_of_int (rand_value (rand libc) (srand libc 1) (2 * idx + 1) smod 100)"
  using assms by (simp_all add: initial_A_def initial_B_def)

lemma initial_dot:
  assumes "i < MATRIX_SIZE" "j < MATRIX_SIZE"
  shows "dot_with mode (initial_A libc) (initial_B libc) MATRIX_SIZE i j =
    dot_ref (initial_A libc) (initial_B libc) MATRIX_SIZE i j"
proof -
  let ?n = MATRIX_SIZE
  let ?a = "\<lambda>k. rand_value (rand libc) (srand libc 1) (2 * (i * ?n + k)) smod 100"
  let ?b = "\<lambda>k. rand_value (rand libc) (srand libc 1) (2 * (k * ?n + j) + 1) smod 100"
  have A: "initial_A libc ! (i * ?n + k) = Finite (of_int (?a k)) \<and> \<bar>?a k\<bar> \<le> 99"
    if "k < ?n" for k
    using initial_nth(1) [OF offset_less [OF assms(1) that], of libc] f32_of_smod by simp
  have B: "initial_B libc ! (k * ?n + j) = Finite (of_int (?b k)) \<and> \<bar>?b k\<bar> \<le> 99"
    if "k < ?n" for k
    using initial_nth(2) [OF offset_less [OF that assms(2)], of libc] f32_of_smod by simp
  have n: "?n * 9801 < 16777216" by (simp add: MATRIX_SIZE_def)
  have "foldl (\<lambda>acc k. mac (f k) acc (initial_A libc ! (i * ?n + k))
        (initial_B libc ! (k * ?n + j))) (Finite 0) [0..<?n] =
      Finite (of_int (\<Sum>k<?n. ?a k * ?b k))" for f
    using dot_int_exact [of ?n "initial_A libc" i ?a "initial_B libc" j ?b ?n f, OF A B n order_refl]
    by (rule conjunct1)
  from this [of "\<lambda>k. mode (int k)"] this [of "\<lambda>k. ieee"]
  show ?thesis by (simp only: dot_with_def dot_ref_with)
qed

lemma device_result_eq:
  "device_result libc env = Some (matmul_ref (initial_A libc) (initial_B libc) MATRIX_SIZE)"
proof -
  let ?n = MATRIX_SIZE
  let ?A = "initial_A libc" and ?B = "initial_B libc"
  let ?w = "\<lambda>idx. dot_with (fp_modes env (idx mod ?n, idx div ?n)) ?A ?B ?n (idx div ?n) (idx mod ?n)"
  have run: "run_items (fp_modes env) ?A ?B (int ?n) (global_ids ?n ?n)
      (map (device_uninit env) [0..<?n * ?n], []) =
    Some (map ?w [0..<?n * ?n], map (\<lambda>g. int (snd g * ?n + fst g)) (global_ids ?n ?n))"
    by (rule launch_result [OF matrix_size_fits length_initial]) simp_all
  have "?w idx = dot_ref ?A ?B ?n (idx div ?n) (idx mod ?n)" if "idx \<in> set [0..<?n * ?n]" for idx
  proof -
    have "idx < ?n * ?n" using that by simp
    then have "idx div ?n < ?n" "idx mod ?n < ?n"
      by (simp_all add: less_mult_imp_div_less MATRIX_SIZE_def)
    then show ?thesis by (rule initial_dot)
  qed
  then have "map ?w [0..<?n * ?n] = matmul_ref ?A ?B ?n"
    unfolding matmul_ref_map by (intro map_cong refl)
  then show ?thesis
    using run by (simp add: device_result_def initialise_eq Let_def)
qed

lemma rand_value_nonneg: "\<forall>s. 0 \<le> fst (rnd s) \<Longrightarrow> 0 \<le> rand_value rnd s k"
  by (simp add: rand_value_def)

lemma initial_small:
  assumes "\<forall>s. 0 \<le> fst (rand libc s)" "idx < MATRIX_SIZE * MATRIX_SIZE"
  shows "initial_A libc ! idx =
      Finite (of_nat (nat (rand_value (rand libc) (srand libc 1) (2 * idx) mod 100)))"
    and "initial_B libc ! idx =
      Finite (of_nat (nat (rand_value (rand libc) (srand libc 1) (2 * idx + 1) mod 100)))"
  using assms(2) rand_value_nonneg [OF assms(1)]
  by (simp_all only: initial_nth f32_of_rand)

text \<open>
  C6. When \<^verbatim>\<open>rand\<close> returns non-negative values, as ISO C requires, the initialisation
  leaves two arrays of \<open>N * N\<close> elements each of which is a finite number in \<open>[0, 100)\<close>:
  the element at offset \<open>idx\<close> of \<open>A\<close> is the value of call \<open>2 * idx\<close> of the C
  library's generator, reduced modulo 100 and converted, the element of \<open>B\<close> that of call
  \<open>2 * idx + 1\<close>.
\<close>

theorem initialised_values_in_range:
  assumes "\<forall>s. 0 \<le> fst (rand libc s)"
  shows "\<exists>A B s. initialise libc env = (A, B, s)
    \<and> length A = MATRIX_SIZE * MATRIX_SIZE \<and> length B = MATRIX_SIZE * MATRIX_SIZE
    \<and> (\<forall>idx<MATRIX_SIZE * MATRIX_SIZE.
          (\<exists>q. A ! idx = Finite q \<and> 0 \<le> q \<and> q < 100)
        \<and> (\<exists>q. B ! idx = Finite q \<and> 0 \<le> q \<and> q < 100)
        \<and> A ! idx = f32_of_int (rand_value (rand libc) (srand libc 1) (2 * idx) smod 100)
        \<and> B ! idx = f32_of_int (rand_value (rand libc) (srand libc 1) (2 * idx + 1) smod 100))"
proof -
  have rng: "(0::rat) \<le> of_nat (nat (r mod 100)) \<and> (of_nat (nat (r mod 100)) :: rat) < 100" for r :: int
  proof -
    have "nat (r mod 100) < 100" by simp
    then have "(of_nat (nat (r mod 100)) :: rat) < of_nat 100" by (simp only: of_nat_less_iff)
    then show ?thesis by simp
  qed
  have "(\<exists>q. initial_A libc ! idx = Finite q \<and> 0 \<le> q \<and> q < 100)
      \<and> (\<exists>q. initial_B libc ! idx = Finite q \<and> 0 \<le> q \<and> q < 100)
      \<and> initial_A libc ! idx = f32_of_int (rand_value (rand libc) (srand libc 1) (2 * idx) smod 100)
      \<and> initial_B libc ! idx = f32_of_int (rand_value (rand libc) (srand libc 1) (2 * idx + 1) smod 100)"
    if "idx < MATRIX_SIZE * MATRIX_SIZE" for idx
    using initial_small [OF assms that] initial_nth [OF that] rng by metis
  then show ?thesis
    using initialise_eq [of libc env] length_initial [of libc] by blast
qed

lemma sample_rand_nonneg: "\<forall>s. 0 \<le> fst (rand sample_libc s)"
  by (simp add: sample_libc_def sample_rand_def Let_def)

lemma sample_first: "rand_value sample_rand (Suc 0) 0 = 16838"
  by (simp add: rand_value_def rand_state_def sample_rand_def)

theorem initialised_values_in_range_witness:
  "fst (initialise sample_libc ok_env) ! 0 = Finite 38
   \<and> (\<exists>q. fst (initialise sample_libc ok_env) ! 0 = Finite q \<and> 0 \<le> q \<and> q < 100)"
proof -
  have z: "0 < MATRIX_SIZE * MATRIX_SIZE" by (simp add: MATRIX_SIZE_def)
  have "f32_of_int (rand_value (rand sample_libc) (srand sample_libc 1) (2 * 0) smod 100) = Finite 38"
    using f32_of_rand [of 16838] by (simp add: sample_libc_def sample_first)
  then show ?thesis
    using initialised_values_in_range [OF sample_rand_nonneg, of ok_env] z by fastforce
qed

text \<open>
  C9. When \<^verbatim>\<open>rand\<close> returns non-negative values, every element of \<open>A\<close> and \<open>B\<close> is
  an integer from 0 to 99, every product and every partial sum of the kernel's
  accumulation is the exact integer (no partial sum exceeds
  \<open>512 * 99 * 99 = 5018112 < 2 ^ 24\<close>), whatever the modes in which the device
  computes, and every cell of the result is the exact integer product of the two
  matrices.
\<close>

theorem product_is_exact:
  assumes "\<forall>s. 0 \<le> fst (rand libc s)"
  shows "\<exists>A B s a b C. initialise libc env = (A, B, s)
    \<and> (\<forall>idx<MATRIX_SIZE * MATRIX_SIZE.
          A ! idx = Finite (of_nat (a idx)) \<and> a idx \<le> 99
        \<and> B ! idx = Finite (of_nat (b idx)) \<and> b idx \<le> 99)
    \<and> (\<forall>i<MATRIX_SIZE. \<forall>j<MATRIX_SIZE. \<forall>m<MATRIX_SIZE.
          fmul (A ! (i * MATRIX_SIZE + m)) (B ! (m * MATRIX_SIZE + j)) =
            Finite (of_nat (a (i * MATRIX_SIZE + m) * b (m * MATRIX_SIZE + j)))
        \<and> foldl (\<lambda>acc k. fadd acc (fmul (A ! (i * MATRIX_SIZE + k)) (B ! (k * MATRIX_SIZE + j))))
            (Finite 0) [0..<Suc m] =
            Finite (of_nat (\<Sum>k<Suc m. a (i * MATRIX_SIZE + k) * b (k * MATRIX_SIZE + j)))
        \<and> (\<forall>f. foldl (\<lambda>acc k. mac (f k) acc (A ! (i * MATRIX_SIZE + k))
              (B ! (k * MATRIX_SIZE + j))) (Finite 0) [0..<Suc m] =
            Finite (of_nat (\<Sum>k<Suc m. a (i * MATRIX_SIZE + k) * b (k * MATRIX_SIZE + j))))
        \<and> (\<Sum>k<Suc m. a (i * MATRIX_SIZE + k) * b (k * MATRIX_SIZE + j)) \<le> 5018112)
    \<and> (5018112 :: nat) < 2 ^ 24
    \<and> device_result libc env = Some C
    \<and> (\<forall>i<MATRIX_SIZE. \<forall>j<MATRIX_SIZE.
          C ! (i * MATRIX_SIZE + j) =
            Finite (of_nat (\<Sum>k<MATRIX_SIZE. a (i * MATRIX_SIZE + k) * b (k * MATRIX_SIZE + j))))"
proof -
  let ?n = MATRIX_SIZE
  let ?A = "initial_A libc" and ?B = "initial_B libc"
  let ?a = "\<lambda>idx. nat (rand_value (rand libc) (srand libc 1) (2 * idx) mod 100)"
  let ?b = "\<lambda>idx. nat (rand_value (rand libc) (srand libc 1) (2 * idx + 1) mod 100)"
  let ?C = "matmul_ref ?A ?B ?n"
  let ?acc = "\<lambda>i j. foldl (\<lambda>acc k. fadd acc (fmul (?A ! (i * ?n + k)) (?B ! (k * ?n + j)))) (Finite 0)"
  let ?mac = "\<lambda>f i j. foldl (\<lambda>acc k. mac (f k) acc (?A ! (i * ?n + k)) (?B ! (k * ?n + j))) (Finite 0)"
  have n: "?n * 9801 < 16777216" by (simp add: MATRIX_SIZE_def)
  have n': "?n * 9801 = 5018112" by (simp add: MATRIX_SIZE_def)
  have le99: "?a idx \<le> 99" "?b idx \<le> 99" for idx
  proof -
    have "nat (r mod 100) \<le> 99" for r :: int
      using pos_mod_bound [of 100 r] by linarith
    then show "?a idx \<le> 99" "?b idx \<le> 99" by blast+
  qed
  have cells: "?A ! idx = Finite (of_nat (?a idx)) \<and> ?a idx \<le> 99
      \<and> ?B ! idx = Finite (of_nat (?b idx)) \<and> ?b idx \<le> 99"
    if "idx < ?n * ?n" for idx
    using initial_small [OF assms that] le99 by simp
  have rowA: "?A ! (i * ?n + k) = Finite (of_nat (?a (i * ?n + k))) \<and> ?a (i * ?n + k) \<le> 99"
    if "i < ?n" "k < ?n" for i k
    using cells [OF offset_less [OF that]] by simp
  have colB: "?B ! (k * ?n + j) = Finite (of_nat (?b (k * ?n + j))) \<and> ?b (k * ?n + j) \<le> 99"
    if "k < ?n" "j < ?n" for k j
    using cells [OF offset_less [OF that]] by simp
  have fused: "?mac f i j [0..<m] = Finite (of_nat (\<Sum>k<m. ?a (i * ?n + k) * ?b (k * ?n + j)))
      \<and> (\<Sum>k<m. ?a (i * ?n + k) * ?b (k * ?n + j)) \<le> m * 9801"
    if "i < ?n" "j < ?n" "m \<le> ?n" for i j m f
    using rowA [OF that(1)] colB [OF _ that(2)] n that(3)
    by (rule dot_exact [where a = "\<lambda>k. ?a (i * ?n + k)" and b = "\<lambda>k. ?b (k * ?n + j)"])
  have dot: "?acc i j [0..<m] = Finite (of_nat (\<Sum>k<m. ?a (i * ?n + k) * ?b (k * ?n + j)))
      \<and> (\<Sum>k<m. ?a (i * ?n + k) * ?b (k * ?n + j)) \<le> m * 9801"
    if "i < ?n" "j < ?n" "m \<le> ?n" for i j m
    using fused [OF that, of "\<lambda>k. ieee"] by (simp only: mac_ieee)
  have steps: "fmul (?A ! (i * ?n + m)) (?B ! (m * ?n + j)) =
        Finite (of_nat (?a (i * ?n + m) * ?b (m * ?n + j)))
      \<and> ?acc i j [0..<Suc m] = Finite (of_nat (\<Sum>k<Suc m. ?a (i * ?n + k) * ?b (k * ?n + j)))
      \<and> (\<forall>f. ?mac f i j [0..<Suc m] =
            Finite (of_nat (\<Sum>k<Suc m. ?a (i * ?n + k) * ?b (k * ?n + j))))
      \<and> (\<Sum>k<Suc m. ?a (i * ?n + k) * ?b (k * ?n + j)) \<le> 5018112"
    if "i < ?n" "j < ?n" "m < ?n" for i j m
  proof -
    have "?a (i * ?n + m) * ?b (m * ?n + j) \<le> 99 * 99"
      using le99 by (intro mult_mono) simp_all
    then have "?a (i * ?n + m) * ?b (m * ?n + j) < 16777216" by simp
    then have 1: "fmul (?A ! (i * ?n + m)) (?B ! (m * ?n + j)) =
        Finite (of_nat (?a (i * ?n + m) * ?b (m * ?n + j)))"
      using rowA [OF that(1,3)] colB [OF that(3,2)] by (simp only: fmul_nat)
    have sm: "Suc m \<le> ?n" using that(3) by simp
    then have "Suc m * 9801 \<le> ?n * 9801" by (simp only: mult_le_mono1)
    then have "(\<Sum>k<Suc m. ?a (i * ?n + k) * ?b (k * ?n + j)) \<le> 5018112"
      using dot [OF that(1,2) sm] n' by linarith
    moreover have "\<forall>f. ?mac f i j [0..<Suc m] =
        Finite (of_nat (\<Sum>k<Suc m. ?a (i * ?n + k) * ?b (k * ?n + j)))"
      using fused [OF that(1,2) sm] by blast
    ultimately show ?thesis using 1 dot [OF that(1,2) sm] by blast
  qed
  have res: "?C ! (i * ?n + j) = Finite (of_nat (\<Sum>k<?n. ?a (i * ?n + k) * ?b (k * ?n + j)))"
    if "i < ?n" "j < ?n" for i j
    using dot [OF that order_refl] matmul_ref_nth [OF that, of ?A ?B]
    by (simp add: dot_ref_def)
  have small: "(5018112 :: nat) < 2 ^ 24" by simp
  show ?thesis
    apply (rule exI [where x = ?A])
    apply (rule exI [where x = ?B])
    apply (rule exI [where x = "rand_state (rand libc) (srand libc 1) (2 * (?n * ?n))"])
    apply (rule exI [where x = ?a])
    apply (rule exI [where x = ?b])
    apply (rule exI [where x = ?C])
    using initialise_eq [of libc env] cells steps small device_result_eq [of libc env] res
    apply blast
    done
qed

theorem product_is_exact_witness:
  "\<exists>C v. device_result sample_libc ok_env = Some C \<and> C ! 0 = Finite (of_nat v)"
proof -
  from product_is_exact [OF sample_rand_nonneg, of ok_env]
  obtain a b C where
    res: "device_result sample_libc ok_env = Some C"
    and cells: "\<forall>i<MATRIX_SIZE. \<forall>j<MATRIX_SIZE.
          C ! (i * MATRIX_SIZE + j) =
            Finite (of_nat (\<Sum>k<MATRIX_SIZE. a (i * MATRIX_SIZE + k) * b (k * MATRIX_SIZE + j)))"
    by (elim exE conjE)
  have z: "0 < MATRIX_SIZE" by (simp add: MATRIX_SIZE_def)
  have "C ! (0 * MATRIX_SIZE + 0) =
      Finite (of_nat (\<Sum>k<MATRIX_SIZE. a (0 * MATRIX_SIZE + k) * b (k * MATRIX_SIZE + 0)))"
    using cells z by (elim allE impE) assumption+
  then have "C ! 0 = Finite (of_nat (\<Sum>k<MATRIX_SIZE. a (0 * MATRIX_SIZE + k) * b (k * MATRIX_SIZE + 0)))"
    by (simp only: mult_0 add_0)
  then show ?thesis using res by (intro exI conjI)
qed

section \<open>Runs of the program\<close>

lemma seq_emit: "seq (emit e) r = prepend [e] r"
  by (simp add: seq_def emit_def prepend_def)

lemma seq_call: "seq (call c) r = prepend [Call c] r"
  by (simp add: seq_def call_def prepend_def)

lemma seq_exit: "seq (exit k) r = ([], Some (Exit k))"
  by (simp add: seq_def exit_def)

lemma seq_skip: "seq skip r = r"
  by (simp add: seq_def skip_def)

lemma seq_running: "seq (es, None) r = prepend es r"
  by (simp add: seq_def prepend_def)

lemma seq_ended: "seq (es, Some out) r = (es, Some out)"
  by (simp add: seq_def)

lemma seq_if: "seq (if b then p else q) r = (if b then seq p r else seq q r)"
  by simp

lemma seq_assoc: "seq (seq p q) r = seq p (seq q r)"
  by (cases "snd p"; cases "snd q") (simp_all add: seq_def)

lemma seq_checkError:
  "seq (checkError st nm) r =
     (if st \<noteq> CL_SUCCESS then ([Stderr (error_line nm st)], Some (Exit 1)) else r)"
  by (simp add: checkError_def seq_def emit_def exit_def skip_def)

lemma seq_prepend: "seq (prepend es p) r = prepend es (seq p r)"
  by (simp add: seq_def prepend_def split: option.splits)

lemma prepend_prepend: "prepend es (prepend fs r) = prepend (es @ fs) r"
  by (simp add: prepend_def)

lemma prepend_if: "prepend es (if b then x else y) = (if b then prepend es x else prepend es y)"
  by simp

lemma prepend_pair: "prepend es (fs, out) = (es @ fs, out)"
  by (simp add: prepend_def)

lemma seqs_emits: "seqs (map (\<lambda>j. emit (f j)) js) = (map f js, None)"
  by (induction js) (simp_all add: skip_def seq_emit prepend_def)

lemma seqs_running: "seqs (map (\<lambda>i. (f i, None)) js) = (concat (map f js), None)"
  by (induction js) (simp_all add: skip_def seq_running prepend_def)

lemma print_row_running:
  assumes "length C = MATRIX_SIZE * MATRIX_SIZE" "i < 10"
  shows "print_row libc C MATRIX_SIZE i = (row_events libc C MATRIX_SIZE i, None)"
proof -
  have "print_cell libc C MATRIX_SIZE i j = emit (Stdout (printf_f libc (C ! (i * MATRIX_SIZE + j)) @ '' ''))"
    if "j \<in> set [0..<10]" for j
  proof -
    have "i * MATRIX_SIZE + j < length C"
      using assms that by (simp add: MATRIX_SIZE_def)
    then show ?thesis by (simp add: print_cell_def load_nat del: of_nat_add of_nat_mult)
  qed
  then have "map (print_cell libc C MATRIX_SIZE i) [0..<10] =
      map (\<lambda>j. emit (Stdout (printf_f libc (C ! (i * MATRIX_SIZE + j)) @ '' ''))) [0..<10]"
    by (intro map_cong refl)
  then have "seqs (map (print_cell libc C MATRIX_SIZE i) [0..<10]) =
      (map (\<lambda>j. Stdout (printf_f libc (C ! (i * MATRIX_SIZE + j)) @ '' '')) [0..<10], None)"
    by (simp only: seqs_emits)
  then show ?thesis
    by (simp add: print_row_def seq_running prepend_def emit_def row_events_def)
qed

lemma print_result_running:
  assumes "length C = MATRIX_SIZE * MATRIX_SIZE"
  shows "print_result libc (Some C) MATRIX_SIZE = (print_events libc C MATRIX_SIZE, None)"
proof -
  have "map (print_row libc C MATRIX_SIZE) [0..<10] =
      map (\<lambda>i. (row_events libc C MATRIX_SIZE i, None)) [0..<10]"
    using print_row_running [OF assms] by (intro map_cong refl) simp
  then show ?thesis
    by (simp only: print_result_def option.case seqs_running print_events_def)
qed

lemma length_matmul_ref: "length (matmul_ref A B n) = n * n"
  by (simp add: matmul_ref_map)

lemmas run_simps = seq_emit seq_call seq_exit seq_skip seq_if seq_assoc seq_checkError seq_running
  seq_ended
  prepend_prepend prepend_if prepend_pair append_Cons append_Nil

lemma bytes: "MATRIX_SIZE * MATRIX_SIZE * 4 = 1048576" "[MATRIX_SIZE, MATRIX_SIZE] = [512, 512]"
  by (simp_all add: MATRIX_SIZE_def)

lemma main_success:
  assumes "all_succeed env"
  shows "main libc env = (normal_trace libc, Some (Exit 0))"
  using assms
  unfolding main_def Let_def device_result_eq run_kernel_def option.case
    print_result_running [OF length_matmul_ref] seqs.simps bytes all_succeed_def checked_calls_def
    normal_trace_def
  by (simp add: run_simps)

lemma setup_calls_eq:
  "setup_calls =
     [(clGetPlatformIDs, ''Getting platform''),
      (clGetDeviceIDs, ''Getting device''),
      (clCreateContext, ''Creating context''),
      (clCreateCommandQueue, ''Creating command queue''),
      (clCreateBuffer MA CL_MEM_READ_ONLY 1048576, ''Creating buffer A''),
      (clCreateBuffer MB CL_MEM_READ_ONLY 1048576, ''Creating buffer B''),
      (clCreateBuffer MC CL_MEM_WRITE_ONLY 1048576, ''Creating buffer C''),
      (clEnqueueWriteBuffer MA True 1048576, ''Copying A to device''),
      (clEnqueueWriteBuffer MB True 1048576, ''Copying B to device''),
      (clCreateProgramWithSource, ''Creating program'')]"
  by (simp add: setup_calls_def checked_calls_def)

lemma launch_calls_eq:
  "launch_calls =
     [(clCreateKernel ''matmul'', ''Creating kernel''),
      (clSetKernelArg 0, ''Setting kernel arg 0''),
      (clSetKernelArg 1, ''Setting kernel arg 1''),
      (clSetKernelArg 2, ''Setting kernel arg 2''),
      (clSetKernelArg 3, ''Setting kernel arg 3''),
      (clEnqueueNDRangeKernel 2 [512, 512] [16, 16], ''Enqueueing kernel''),
      (clEnqueueReadBuffer MC True 1048576, ''Reading result'')]"
  by (simp add: launch_calls_def checked_calls_def)

lemma checked_calls_split: "checked_calls = setup_calls @ launch_calls"
  by (simp add: setup_calls_def launch_calls_def)

lemma main_checks:
  "main libc env =
     prepend [Malloc MA 1048576, Malloc MB 1048576, Malloc MC 1048576]
       (checks env setup_calls
         (build_step env (checks env launch_calls (tail_events libc, Some (Exit 0)))))"
  unfolding main_def Let_def device_result_eq run_kernel_def option.case
    print_result_running [OF length_matmul_ref] seqs.simps bytes setup_calls_eq launch_calls_eq
    build_step_def tail_events_def
  by (simp only: run_simps seq_prepend exit_def checks.simps fst_conv snd_conv)

lemma stderr_of_append: "stderr_of (xs @ ys) = stderr_of xs @ stderr_of ys"
  by (simp add: stderr_of_def)

lemma checks_step:
  "checks env (p # ps) r =
     prepend [Call (fst p)]
       (if status env (fst p) \<noteq> CL_SUCCESS
        then ([Stderr (error_line (snd p) (status env (fst p)))], Some (Exit 1))
        else checks env ps r)"
  by (simp only: checks.simps seq_call seq_checkError)

declare checks.simps(2) [simp del]

lemma fails_at_prepend:
  assumes "Call c \<notin> set es" "stderr_of es = []" "fails_at env c nm r"
  shows "fails_at env c nm (prepend es r)"
proof -
  have "until_call c (es @ fst r) = es @ until_call c (fst r)"
    unfolding until_call_def using assms(1) by (subst takeWhile_append2) auto
  then show ?thesis
    using assms(2,3) by (simp add: fails_at_def prepend_def stderr_of_append)
qed

lemma fails_at_here:
  "fails_at env c nm ([Call c, Stderr (error_line nm (status env c))], Some (Exit 1))"
  by (simp add: fails_at_def until_call_def stderr_of_def)

text \<open>A checked call that is made and fails ends the run with its error line.\<close>

lemma checks_hit:
  assumes "distinct (map fst cs)" "(c, nm) \<in> set cs" "status env c \<noteq> CL_SUCCESS"
    and "Call c \<in> set (fst (checks env cs r))"
  shows "fails_at env c nm (checks env cs r)"
  using assms
proof (induction cs)
  case Nil
  then show ?case by simp
next
  case (Cons p ps)
  show ?case
  proof (cases "fst p = c")
    case True
    then have "snd p = nm" using Cons.prems(1,2) by (cases p) (auto simp: image_iff)
    then show ?thesis
      using True Cons.prems(3) fails_at_here [of env c nm]
      by (simp add: checks_step prepend_def)
  next
    case False
    then have mem: "(c, nm) \<in> set ps" using Cons.prems(2) by auto
    show ?thesis
    proof (cases "status env (fst p) = CL_SUCCESS")
      case True
      then have eq: "checks env (p # ps) r = prepend [Call (fst p)] (checks env ps r)"
        by (simp add: checks_step)
      then have "Call c \<in> set (fst (checks env ps r))"
        using Cons.prems(4) False by (simp add: prepend_def)
      then have "fails_at env c nm (checks env ps r)"
        using Cons.prems(1,3) mem by (intro Cons.IH) simp_all
      then show ?thesis
        unfolding eq using False by (intro fails_at_prepend) (simp_all add: stderr_of_def)
    next
      case st: False
      then have "Call c \<notin> set (fst (checks env (p # ps) r))"
        using False by (simp add: checks_step prepend_def)
      then show ?thesis using Cons.prems(4) by simp
    qed
  qed
qed

text \<open>Calls checked before the call \<open>c\<close> is made have succeeded.\<close>

lemma checks_pass:
  assumes "c \<notin> fst ` set cs" "Call c \<in> set (fst (checks env cs r))"
  shows "checks env cs r = prepend (map (\<lambda>p. Call (fst p)) cs) r
    \<and> list_all (\<lambda>p. status env (fst p) = CL_SUCCESS) cs \<and> Call c \<in> set (fst r)"
  using assms
proof (induction cs)
  case Nil
  then show ?case by (simp add: prepend_def)
next
  case (Cons p ps)
  have ne: "fst p \<noteq> c" using Cons.prems(1) by auto
  have st: "status env (fst p) = CL_SUCCESS"
  proof (rule ccontr)
    assume "status env (fst p) \<noteq> CL_SUCCESS"
    then have "Call c \<notin> set (fst (checks env (p # ps) r))"
      using ne by (simp add: checks_step prepend_def)
    then show False using Cons.prems(2) by simp
  qed
  then have eq: "checks env (p # ps) r = prepend [Call (fst p)] (checks env ps r)"
    by (simp add: checks_step)
  then have "Call c \<in> set (fst (checks env ps r))"
    using Cons.prems(2) ne by (simp add: prepend_def)
  then have "checks env ps r = prepend (map (\<lambda>p. Call (fst p)) ps) r
      \<and> list_all (\<lambda>p. status env (fst p) = CL_SUCCESS) ps \<and> Call c \<in> set (fst r)"
    using Cons.prems(1) by (intro Cons.IH) simp_all
  then show ?case using st eq by (simp add: prepend_def)
qed

lemma distinct_checked: "distinct (map fst checked_calls)"
  by (simp add: checked_calls_def)

lemma checked_not_build:
  assumes "(c, nm) \<in> set checked_calls"
  shows "c \<noteq> clBuildProgram" "c \<noteq> clGetProgramBuildInfo n" "c \<noteq> clReleaseMemObject m"
    "c \<noteq> clReleaseKernel" "c \<noteq> clReleaseProgram" "c \<noteq> clReleaseCommandQueue"
    "c \<noteq> clReleaseContext"
  using assms by (auto simp: checked_calls_def)

lemma stderr_of_calls: "stderr_of (map (\<lambda>p. Call (fst p)) cs) = []"
  by (induction cs) (simp_all add: stderr_of_def)

lemma call_in_calls: "Call c \<in> (\<lambda>p. Call (fst p)) ` set cs \<longleftrightarrow> c \<in> fst ` set cs"
  by auto

lemma build_branch:
  "prepend [Call (clGetProgramBuildInfo 10240)] (seq (print_build_log buffer) (exit 1)) =
     (case buffer of
        None \<Rightarrow> ([Call (clGetProgramBuildInfo 10240)], Some Undefined)
      | Some str \<Rightarrow>
          ([Call (clGetProgramBuildInfo 10240),
            Stderr (''CL Compilation failed:\<newline>'' @ str @ ''\<newline>'')], Some (Exit 1)))"
  by (simp add: print_build_log_def prepend_def seq_def undefined_behaviour_def emit_def exit_def
      split: option.splits)

lemma build_step_pass:
  assumes "c \<noteq> clBuildProgram" "c \<noteq> clGetProgramBuildInfo 10240"
    and "Call c \<in> set (fst (build_step env r))"
  shows "build_step env r = prepend [Call clBuildProgram] r \<and> Call c \<in> set (fst r)
    \<and> status env clBuildProgram = CL_SUCCESS"
  using assms unfolding build_step_def build_branch
  by (cases "status env clBuildProgram = CL_SUCCESS") (simp_all add: prepend_def split: option.splits)

lemma digits_no_newline: "CHR 0x0A \<notin> set (digits n)"
proof (induction n rule: digits.induct)
  case (1 n)
  have d: "CHR 0x0A \<noteq> ''0123456789'' ! k" if "k < 10" for k
  proof -
    have "''0123456789'' ! k \<in> set ''0123456789''" using that by (intro nth_mem) simp
    then show ?thesis by auto
  qed
  show ?case
  proof (cases "n < 10")
    case True
    then show ?thesis using d [of n] by (subst digits.simps) simp
  next
    case False
    then show ?thesis using 1 d [of "n mod 10"] by (subst digits.simps) simp
  qed
qed

lemma error_line_one_line:
  assumes "CHR 0x0A \<notin> set nm"
  shows "count_list (error_line nm st) (CHR 0x0A) = 1"
  using assms digits_no_newline
  by (simp add: error_line_def printf_d_def count_list_0_iff)

lemma checked_names_one_line: "(c, nm) \<in> set checked_calls \<Longrightarrow> CHR 0x0A \<notin> set nm"
  by (auto simp: checked_calls_def)

lemma platform_failure:
  assumes "status env clGetPlatformIDs \<noteq> CL_SUCCESS"
  shows "main libc env =
    ([Malloc MA 1048576, Malloc MB 1048576, Malloc MC 1048576, Call clGetPlatformIDs,
      Stderr (error_line ''Getting platform'' (status env clGetPlatformIDs))], Some (Exit 1))"
  using assms unfolding main_checks setup_calls_eq
  by (simp add: checks_step prepend_def)

text \<open>
  C2, amended. For each of the seventeen calls whose status \<^verbatim>\<open>main\<close> passes to
  \<^verbatim>\<open>checkError\<close>: when the call is made and returns a status other than success, the
  run ends right after it with the one line
  \<^verbatim>\<open>Error during operation '<name>': <code>\<close> on standard error, which is all the
  run writes there (one newline, at its end), and the exit code 1; no event follows the
  line. When it is the
  platform enumeration that fails, the run is the three allocations, that call and the
  line for \<^verbatim>\<open>Getting platform\<close>.
\<close>

theorem checked_call_failure:
  assumes "(c, nm) \<in> set checked_calls"
    and "Call c \<in> set (fst (main libc env))"
    and "status env c \<noteq> CL_SUCCESS"
  shows "fst (main libc env) =
      until_call c (fst (main libc env)) @ [Stderr (error_line nm (status env c))]
    \<and> stderr_of (fst (main libc env)) = error_line nm (status env c)
    \<and> count_list (stderr_of (fst (main libc env))) (CHR 0x0A) = 1
    \<and> snd (main libc env) = Some (Exit 1)
    \<and> (c = clGetPlatformIDs \<longrightarrow>
         main libc env =
           ([Malloc MA 1048576, Malloc MB 1048576, Malloc MC 1048576, Call clGetPlatformIDs,
             Stderr (error_line ''Getting platform'' (status env clGetPlatformIDs))],
            Some (Exit 1)))"
proof -
  let ?M = "[Malloc MA 1048576, Malloc MB 1048576, Malloc MC 1048576]"
  let ?R2 = "checks env launch_calls (tail_events libc, Some (Exit 0))"
  let ?R1 = "build_step env ?R2"
  let ?R0 = "checks env setup_calls ?R1"
  have main: "main libc env = prepend ?M ?R0" by (rule main_checks)
  have M: "Call c \<notin> set ?M" "stderr_of ?M = []" by (simp_all add: stderr_of_def)
  have in0: "Call c \<in> set (fst ?R0)"
    using assms(2) unfolding main by (simp add: prepend_def)
  have d: "distinct (map fst setup_calls)" "distinct (map fst launch_calls)"
    "fst ` set setup_calls \<inter> fst ` set launch_calls = {}"
    using distinct_checked unfolding checked_calls_split by simp_all
  have "fails_at env c nm ?R0"
  proof (cases "(c, nm) \<in> set setup_calls")
    case True
    then show ?thesis using d(1) assms(3) in0 by (intro checks_hit)
  next
    case False
    then have l: "(c, nm) \<in> set launch_calls"
      using assms(1) unfolding checked_calls_split by simp
    then have "c \<in> fst ` set launch_calls" by (simp add: image_iff) (metis fst_conv)
    then have ns: "c \<notin> fst ` set setup_calls" using d(3) by blast
    have p0: "?R0 = prepend (map (\<lambda>p. Call (fst p)) setup_calls) ?R1"
      and in1: "Call c \<in> set (fst ?R1)"
      using checks_pass [OF ns in0] by simp_all
    have p1: "?R1 = prepend [Call clBuildProgram] ?R2" and in2: "Call c \<in> set (fst ?R2)"
      using build_step_pass [OF checked_not_build(1,2) [OF assms(1)] in1] by simp_all
    have "fails_at env c nm ?R2"
      using d(2) l assms(3) in2 by (intro checks_hit)
    then have "fails_at env c nm ?R1"
      unfolding p1 using checked_not_build(1) [OF assms(1)]
      by (intro fails_at_prepend) (simp_all add: stderr_of_def)
    then show ?thesis
      unfolding p0 using ns by (intro fails_at_prepend) (simp_all add: stderr_of_calls call_in_calls)
  qed
  then have "fails_at env c nm (main libc env)"
    unfolding main using M by (intro fails_at_prepend)
  moreover have "c = clGetPlatformIDs \<longrightarrow>
      main libc env =
        ([Malloc MA 1048576, Malloc MB 1048576, Malloc MC 1048576, Call clGetPlatformIDs,
          Stderr (error_line ''Getting platform'' (status env clGetPlatformIDs))],
         Some (Exit 1))"
    using assms(3) platform_failure [of env libc] by blast
  moreover have "count_list (error_line nm (status env c)) (CHR 0x0A) = 1"
    using checked_names_one_line [OF assms(1)] by (rule error_line_one_line)
  ultimately show ?thesis unfolding fails_at_def by metis
qed

lemma build_failure_prefix:
  assumes "Call clBuildProgram \<in> set (fst (main libc env))"
    and "status env clBuildProgram \<noteq> CL_SUCCESS"
  shows "main libc env =
      prepend [Malloc MA 1048576, Malloc MB 1048576, Malloc MC 1048576,
        Call clGetPlatformIDs, Call clGetDeviceIDs, Call clCreateContext,
        Call clCreateCommandQueue,
        Call (clCreateBuffer MA CL_MEM_READ_ONLY 1048576),
        Call (clCreateBuffer MB CL_MEM_READ_ONLY 1048576),
        Call (clCreateBuffer MC CL_MEM_WRITE_ONLY 1048576),
        Call (clEnqueueWriteBuffer MA True 1048576),
        Call (clEnqueueWriteBuffer MB True 1048576),
        Call clCreateProgramWithSource,
        Call clBuildProgram]
       (case build_info_buffer env 10240 of
          None \<Rightarrow> ([Call (clGetProgramBuildInfo 10240)], Some Undefined)
        | Some str \<Rightarrow>
            ([Call (clGetProgramBuildInfo 10240),
              Stderr (''CL Compilation failed:\<newline>'' @ str @ ''\<newline>'')], Some (Exit 1)))"
proof -
  let ?M = "[Malloc MA 1048576, Malloc MB 1048576, Malloc MC 1048576]"
  let ?R1 = "build_step env (checks env launch_calls (tail_events libc, Some (Exit 0)))"
  let ?R0 = "checks env setup_calls ?R1"
  have main: "main libc env = prepend ?M ?R0" by (rule main_checks)
  have in0: "Call clBuildProgram \<in> set (fst ?R0)"
    using assms(1) unfolding main by (simp add: prepend_def)
  have ns: "clBuildProgram \<notin> fst ` set setup_calls" by (simp add: setup_calls_eq)
  have p0: "?R0 = prepend (map (\<lambda>p. Call (fst p)) setup_calls) ?R1"
    using checks_pass [OF ns in0] by simp
  have p1: "?R1 = prepend [Call clBuildProgram]
      (case build_info_buffer env 10240 of
          None \<Rightarrow> ([Call (clGetProgramBuildInfo 10240)], Some Undefined)
        | Some str \<Rightarrow>
            ([Call (clGetProgramBuildInfo 10240),
              Stderr (''CL Compilation failed:\<newline>'' @ str @ ''\<newline>'')], Some (Exit 1)))"
    using assms(2) by (simp add: build_step_def build_branch)
  have "main libc env = prepend ?M (prepend (map (\<lambda>p. Call (fst p)) setup_calls) ?R1)"
    by (simp only: main p0)
  then show ?thesis
    unfolding p1 by (simp add: prepend_def setup_calls_eq)
qed

lemma build_failure_run:
  assumes "Call clBuildProgram \<in> set (fst (main libc env))"
    and "status env clBuildProgram \<noteq> CL_SUCCESS"
    and "status env (clGetProgramBuildInfo 10240) = CL_SUCCESS"
    and "length (build_log env) < 10240"
  shows "main libc env =
      ([Malloc MA 1048576, Malloc MB 1048576, Malloc MC 1048576,
        Call clGetPlatformIDs, Call clGetDeviceIDs, Call clCreateContext,
        Call clCreateCommandQueue,
        Call (clCreateBuffer MA CL_MEM_READ_ONLY 1048576),
        Call (clCreateBuffer MB CL_MEM_READ_ONLY 1048576),
        Call (clCreateBuffer MC CL_MEM_WRITE_ONLY 1048576),
        Call (clEnqueueWriteBuffer MA True 1048576),
        Call (clEnqueueWriteBuffer MB True 1048576),
        Call clCreateProgramWithSource,
        Call clBuildProgram,
        Call (clGetProgramBuildInfo 10240),
        Stderr (''CL Compilation failed:\<newline>'' @ build_log env @ ''\<newline>'')],
       Some (Exit 1))"
  unfolding build_failure_prefix [OF assms(1,2)] using assms(3,4)
  by (simp add: build_info_buffer_def prepend_def)


lemma checks_succeed:
  assumes "\<forall>p\<in>set cs. status env (fst p) = CL_SUCCESS"
  shows "checks env cs r = prepend (map (\<lambda>p. Call (fst p)) cs) r"
  using assms by (induction cs) (simp_all add: checks_step prepend_def)

lemma build_reached:
  assumes "\<forall>c. c \<noteq> clBuildProgram \<and> c \<noteq> clGetProgramBuildInfo 10240 \<longrightarrow> status env c = CL_SUCCESS"
  shows "Call clBuildProgram \<in> set (fst (main libc env))"
proof -
  have "\<forall>p\<in>set setup_calls. status env (fst p) = CL_SUCCESS"
    using assms by (simp add: setup_calls_eq)
  then show ?thesis
    unfolding main_checks by (simp add: checks_succeed prepend_def build_step_def)
qed

lemma build_fail_reached: "Call clBuildProgram \<in> set (fst (main libc build_fail_env))"
  by (rule build_reached) (simp add: build_fail_env_def ok_env_def)



lemma error_line_platform:
  "error_line ''Getting platform'' (- 1) =
     ''Error during operation '' @ [CHR 0x27] @ ''Getting platform'' @ [CHR 0x27] @ '': -1\<newline>''"
  by (simp add: error_line_def printf_d_def digits.simps)

theorem checked_call_failure_witness:
  "stderr_of (fst (main sample_libc platform_fail_env)) =
     ''Error during operation '' @ [CHR 0x27] @ ''Getting platform'' @ [CHR 0x27] @ '': -1\<newline>''
   \<and> snd (main sample_libc platform_fail_env) = Some (Exit 1)"
proof -
  have st: "status platform_fail_env clGetPlatformIDs = - 1"
    by (simp add: platform_fail_env_def)
  then have ne: "status platform_fail_env clGetPlatformIDs \<noteq> CL_SUCCESS"
    by (simp add: CL_SUCCESS_def)
  have mem: "(clGetPlatformIDs, ''Getting platform'') \<in> set checked_calls"
    by (simp add: checked_calls_def)
  have reached: "Call clGetPlatformIDs \<in> set (fst (main sample_libc platform_fail_env))"
    by (simp add: platform_failure [OF ne])
  have "stderr_of (fst (main sample_libc platform_fail_env)) =
        error_line ''Getting platform'' (status platform_fail_env clGetPlatformIDs)
      \<and> snd (main sample_libc platform_fail_env) = Some (Exit 1)"
    using checked_call_failure [OF mem reached ne] by blast
  then show ?thesis unfolding st error_line_platform .
qed

text \<open>
  The claim C2 fails for the build call: it is an API call of the driver, it returns a
  status other than success, and the run writes no line of the form
  \<^verbatim>\<open>Error during operation '<name>': <code>\<close> and makes one more API call, the query
  of the build log.
\<close>

theorem build_failure_not_checkError:
  "Call clBuildProgram \<in> set (fst (main sample_libc build_fail_env))
   \<and> status build_fail_env clBuildProgram \<noteq> CL_SUCCESS
   \<and> (\<forall>nm. stderr_of (fst (main sample_libc build_fail_env)) \<noteq>
         error_line nm (status build_fail_env clBuildProgram))
   \<and> before (fst (main sample_libc build_fail_env)) (Call clBuildProgram)
        (Call (clGetProgramBuildInfo 10240))"
proof -
  have ne: "status build_fail_env clBuildProgram \<noteq> CL_SUCCESS"
    by (simp add: build_fail_env_def CL_SUCCESS_def)
  have reached: "Call clBuildProgram \<in> set (fst (main sample_libc build_fail_env))"
    by (rule build_fail_reached)
  have ok: "status build_fail_env (clGetProgramBuildInfo 10240) = CL_SUCCESS"
    and fits: "length (build_log build_fail_env) < 10240"
    by (simp_all add: build_fail_env_def)
  note run = build_failure_run [OF reached ne ok fits]
  have "stderr_of (fst (main sample_libc build_fail_env)) \<noteq> error_line nm st" for nm st
    unfolding run by (simp add: error_line_def stderr_of_def)
  moreover have "before (fst (main sample_libc build_fail_env)) (Call clBuildProgram)
        (Call (clGetProgramBuildInfo 10240))"
    unfolding run by (simp add: before_def)
  ultimately show ?thesis using reached ne by blast
qed

section \<open>Normal completion\<close>

lemma stdout_of_append: "stdout_of (xs @ ys) = stdout_of xs @ stdout_of ys"
  by (simp add: stdout_of_def)

lemma stdout_of_row:
  "stdout_of (row_events libc C N i) =
     concat (map (\<lambda>j. printf_f libc (C ! (i * N + j)) @ '' '') [0..<10]) @ ''\<newline>''"
proof -
  have "concat (map stdout_text (map (\<lambda>j. Stdout (f j)) js)) = concat (map f js)"
    for f :: "nat \<Rightarrow> string" and js
    by (induction js) simp_all
  then show ?thesis
    by (simp only: row_events_def stdout_of_def map_append concat_append)
      (simp add: comp_def)
qed

lemma stdout_of_print:
  "stdout_of (print_events libc C N) =
     concat (map (\<lambda>i. concat (map (\<lambda>j. printf_f libc (C ! (i * N + j)) @ '' '') [0..<10])
       @ ''\<newline>'') [0..<10])"
proof -
  have "stdout_of (concat (map f is)) = concat (map (\<lambda>i. stdout_of (f i)) is)"
    for f :: "nat \<Rightarrow> event list" and "is"
    by (induction "is") (simp_all add: stdout_of_append, simp add: stdout_of_def)
  then show ?thesis
    by (simp only: print_events_def stdout_of_row)
qed

lemma print_events_stdout: "e \<in> set (print_events libc C N) \<Longrightarrow> \<exists>t. e = Stdout t"
  by (auto simp: print_events_def row_events_def)

lemma stderr_text_print: "e \<in> set (print_events libc C N) \<Longrightarrow> stderr_text e = []"
  using print_events_stdout [of e libc C N] by auto

lemma stderr_of_print: "stderr_of (print_events libc C N) = []"
  by (simp add: stderr_of_def stderr_text_print)

lemma stdout_of_normal:
  "stdout_of (normal_trace libc) =
     stdout_of (print_events libc (matmul_ref (initial_A libc) (initial_B libc) MATRIX_SIZE)
       MATRIX_SIZE)"
  by (simp add: normal_trace_def stdout_of_append) (simp add: stdout_of_def)

lemma stderr_of_normal: "stderr_of (normal_trace libc) = []"
  by (simp add: normal_trace_def stderr_of_def stderr_text_print)

lemma count_newlines:
  assumes "\<And>i j. CHR 0x0A \<notin> set (f i j)"
  shows "count_list (concat (map (\<lambda>i. concat (map (\<lambda>j. f i j @ '' '') js) @ ''\<newline>'') is))
     (CHR 0x0A) = length is"
proof -
  have cell: "count_list (f i j) (CHR 0x0A) = 0" for i j
    using assms [of i j] by (simp add: count_list_0_iff)
  have row: "count_list (concat (map (\<lambda>j. f i j @ '' '') js)) (CHR 0x0A) = 0" for i
    by (induction js) (simp_all add: cell)
  show ?thesis
    by (induction "is") (simp_all add: row)
qed

text \<open>
  C8. When every checked call succeeds, the text the run writes to standard output is
  ten rows, row \<open>i\<close> being the ten values \<open>C[i * N + j]\<close> of the result, \<open>j\<close> from 0 to
  9, each in the conversion \<^verbatim>\<open>%f\<close> and followed by a space, and then a newline; the
  run writes nothing to standard error and exits with code 0. As the conversion
  yields no newline, these are exactly ten lines.
\<close>

theorem normal_completion_output:
  assumes "all_succeed env"
  shows "\<exists>C. device_result libc env = Some C
    \<and> stdout_of (fst (main libc env)) =
        concat (map (\<lambda>i. concat (map (\<lambda>j. printf_f libc (C ! (i * MATRIX_SIZE + j)) @ '' '')
          [0..<10]) @ ''\<newline>'') [0..<10])
    \<and> stderr_of (fst (main libc env)) = []
    \<and> snd (main libc env) = Some (Exit 0)
    \<and> ((\<forall>v. CHR 0x0A \<notin> set (printf_f libc v)) \<longrightarrow>
         count_list (stdout_of (fst (main libc env))) (CHR 0x0A) = 10)"
proof -
  let ?C = "matmul_ref (initial_A libc) (initial_B libc) MATRIX_SIZE"
  have run: "main libc env = (normal_trace libc, Some (Exit 0))"
    using assms by (rule main_success)
  have out: "stdout_of (fst (main libc env)) =
      concat (map (\<lambda>i. concat (map (\<lambda>j. printf_f libc (?C ! (i * MATRIX_SIZE + j)) @ '' '')
        [0..<10]) @ ''\<newline>'') [0..<10])"
    by (simp only: run fst_conv stdout_of_normal stdout_of_print)
  have lines: "count_list (stdout_of (fst (main libc env))) (CHR 0x0A) = 10"
    if "\<forall>v. CHR 0x0A \<notin> set (printf_f libc v)"
    unfolding out
    using count_newlines [of "\<lambda>i j. printf_f libc (?C ! (i * MATRIX_SIZE + j))" "[0..<10]" "[0..<10]"] that
    by simp
  show ?thesis
    using device_result_eq [of libc env] out lines
    by (intro exI [where x = ?C]) (simp add: run stderr_of_normal)
qed

lemma ok_env_succeeds: "all_succeed ok_env"
  by (simp add: all_succeed_def ok_env_def checked_calls_def)

theorem normal_completion_output_witness:
  "snd (main sample_libc ok_env) = Some (Exit 0)
   \<and> stderr_of (fst (main sample_libc ok_env)) = []
   \<and> count_list (stdout_of (fst (main sample_libc ok_env))) (CHR 0x0A) = 10"
proof -
  have "\<forall>v. CHR 0x0A \<notin> set (printf_f sample_libc v)"
    by (simp add: sample_libc_def)
  then show ?thesis
    using normal_completion_output [OF ok_env_succeeds, of sample_libc] by blast
qed

lemma releases_print: "e \<in> set (print_events libc C N) \<Longrightarrow> releases e = None"
  using print_events_stdout [of e libc C N] by auto

lemma acquires_print: "e \<in> set (print_events libc C N) \<Longrightarrow> acquires e = None"
  using print_events_stdout [of e libc C N] by auto

lemma map_filter_append: "List.map_filter f (xs @ ys) = List.map_filter f xs @ List.map_filter f ys"
  by (simp add: List.map_filter_def)

lemma map_filter_none: "(\<And>e. e \<in> set xs \<Longrightarrow> f e = None) \<Longrightarrow> List.map_filter f xs = []"
  by (induction xs) (simp_all add: List.map_filter_simps)

lemma released_normal:
  "released (normal_trace libc) =
     [Buffer MA, Buffer MB, Buffer MC, Kernel, Program, Queue, Context,
      HostMem MA, HostMem MB, HostMem MC]"
  unfolding released_def normal_trace_def map_filter_append
  by (simp add: map_filter_none [OF releases_print] List.map_filter_simps)

lemma acquired_normal:
  "acquired (normal_trace libc) =
     [HostMem MA, HostMem MB, HostMem MC, Context, Queue, Buffer MA, Buffer MB, Buffer MC,
      Program, Kernel]"
  unfolding acquired_def normal_trace_def map_filter_append
  by (simp add: map_filter_none [OF acquires_print] List.map_filter_simps)

lemma no_use_after_release_quiet:
  "(\<And>e. e \<in> set xs \<Longrightarrow> releases e = None) \<Longrightarrow>
     no_use_after_release (xs @ ys) = no_use_after_release ys"
  by (induction xs) simp_all

lemma no_use_after_release_normal: "no_use_after_release (normal_trace libc)"
  unfolding normal_trace_def
  by (simp add: no_use_after_release_quiet [OF releases_print])

text \<open>
  C5, amended. When every checked call succeeds, the run acquires the three host
  arrays, the context, the queue, the three buffers, the program and the kernel, in
  this order, and before it exits with code 0 it releases each of them once: the
  buffers \<open>A\<close>, \<open>B\<close>, \<open>C\<close>, the kernel, the program, the queue, the context, and
  then the host arrays. Every API resource is released before the resource it was
  created from, the buffers, the kernel and the program before the queue and the
  context, and no event uses a resource after its release.
\<close>

theorem resources_released:
  assumes "all_succeed env"
  shows "acquired (fst (main libc env)) =
      [HostMem MA, HostMem MB, HostMem MC, Context, Queue, Buffer MA, Buffer MB, Buffer MC,
       Program, Kernel]
    \<and> released (fst (main libc env)) =
      [Buffer MA, Buffer MB, Buffer MC, Kernel, Program, Queue, Context,
       HostMem MA, HostMem MB, HostMem MC]
    \<and> mset (released (fst (main libc env))) = mset (acquired (fst (main libc env)))
    \<and> (\<forall>r\<in>set (released (fst (main libc env))). \<forall>p\<in>set (created_from r).
          before (released (fst (main libc env))) r p)
    \<and> (\<forall>r\<in>{Buffer MA, Buffer MB, Buffer MC, Kernel, Program}. \<forall>p\<in>{Queue, Context}.
          before (released (fst (main libc env))) r p)
    \<and> (\<forall>r\<in>{Buffer MA, Buffer MB, Buffer MC, Kernel, Program, Queue, Context}.
        \<forall>m. before (released (fst (main libc env))) r (HostMem m))
    \<and> no_use_after_release (fst (main libc env))
    \<and> snd (main libc env) = Some (Exit 0)"
proof -
  have run: "main libc env = (normal_trace libc, Some (Exit 0))"
    using assms by (rule main_success)
  have m: "m = MA \<or> m = MB \<or> m = MC" for m by (cases m) simp_all
  show ?thesis
    unfolding run fst_conv snd_conv released_normal acquired_normal
    using no_use_after_release_normal [of libc] m
    by (auto simp: before_def)
qed

theorem resources_released_witness:
  "released (fst (main sample_libc ok_env)) =
      [Buffer MA, Buffer MB, Buffer MC, Kernel, Program, Queue, Context,
       HostMem MA, HostMem MB, HostMem MC]
   \<and> no_use_after_release (fst (main sample_libc ok_env))
   \<and> before (released (fst (main sample_libc ok_env))) Kernel Program"
proof -
  have "released (fst (main sample_libc ok_env)) =
      [Buffer MA, Buffer MB, Buffer MC, Kernel, Program, Queue, Context,
       HostMem MA, HostMem MB, HostMem MC]
    \<and> no_use_after_release (fst (main sample_libc ok_env))"
    using resources_released [OF ok_env_succeeds, of sample_libc] by blast
  then show ?thesis by (simp add: before_def)
qed

text \<open>
  The claim C5 fails in its order: the API resources are not released in the reverse
  of the order of their acquisition (the buffers go first, and in the order of their
  creation).
\<close>

theorem release_order_not_reversed:
  "filter is_api (released (fst (main sample_libc ok_env))) \<noteq>
     rev (filter is_api (acquired (fst (main sample_libc ok_env))))"
  unfolding main_success [OF ok_env_succeeds] fst_conv released_normal acquired_normal
  by simp

lemma print_events_range: "set (print_events libc C N) \<subseteq> range Stdout"
  using print_events_stdout by blast

lemma queue_step_print: "set xs \<subseteq> range Stdout \<Longrightarrow> foldl queue_step q xs = q"
  by (induction xs arbitrary: q) auto

lemma in_flight_normal: "in_flight (normal_trace libc) = []"
  unfolding in_flight_def normal_trace_def foldl_append
  by (simp add: queue_step_print [OF print_events_range])

lemma not_print: "Call c \<notin> set (print_events libc C N)"
  using print_events_stdout [of "Call c" libc C N] by auto

lemma enqueue_calls_print: "enqueue_calls (print_events libc C N) = []"
proof -
  have "enqueue_calls xs = []" if "set xs \<subseteq> range Stdout" for xs
    using that by (induction xs) (auto simp: enqueue_calls_def)
  then show ?thesis using print_events_range by blast
qed

lemma enqueue_calls_append: "enqueue_calls (xs @ ys) = enqueue_calls xs @ enqueue_calls ys"
  by (simp add: enqueue_calls_def)

lemma enqueue_calls_normal:
  "enqueue_calls (normal_trace libc) =
     [clEnqueueWriteBuffer MA True 1048576, clEnqueueWriteBuffer MB True 1048576,
      clEnqueueNDRangeKernel 2 [512, 512] [16, 16], clEnqueueReadBuffer MC True 1048576]"
  unfolding normal_trace_def enqueue_calls_append enqueue_calls_print
  by (simp add: enqueue_calls_def)

lemma in_flight_points:
  "in_flight (until_call (clEnqueueWriteBuffer MA True 1048576) (normal_trace libc)) = []"
  "in_flight (until_call (clEnqueueWriteBuffer MB True 1048576) (normal_trace libc)) = []"
  "in_flight (until_call (clEnqueueNDRangeKernel 2 [512, 512] [16, 16]) (normal_trace libc)) =
     [clEnqueueNDRangeKernel 2 [512, 512] [16, 16]]"
  "in_flight (takeWhile (\<lambda>e. e \<noteq> Call (clEnqueueReadBuffer MC True 1048576)) (normal_trace libc)) =
     [clEnqueueNDRangeKernel 2 [512, 512] [16, 16]]"
  "in_flight (until_call (clEnqueueReadBuffer MC True 1048576) (normal_trace libc)) = []"
  by (simp_all add: normal_trace_def until_call_def in_flight_def)

text \<open>
  C4, amended. When every checked call succeeds, the program enqueues four commands:
  the two writes, the kernel launch and the read, in this order. The two writes and the
  read are issued with the blocking flag, so that nothing is in flight when each of
  them returns. The launch is not awaited: it is in flight when its call returns and
  still when the program issues the read; the blocking read on the in-order queue is
  what completes it, and nothing is in flight at the end of the run.
\<close>

theorem transfers_block_launch_does_not:
  assumes "all_succeed env"
  shows "enqueue_calls (fst (main libc env)) =
      [clEnqueueWriteBuffer MA True 1048576, clEnqueueWriteBuffer MB True 1048576,
       clEnqueueNDRangeKernel 2 [512, 512] [16, 16], clEnqueueReadBuffer MC True 1048576]
    \<and> in_flight (until_call (clEnqueueWriteBuffer MA True 1048576) (fst (main libc env))) = []
    \<and> in_flight (until_call (clEnqueueWriteBuffer MB True 1048576) (fst (main libc env))) = []
    \<and> in_flight (until_call (clEnqueueNDRangeKernel 2 [512, 512] [16, 16]) (fst (main libc env))) =
        [clEnqueueNDRangeKernel 2 [512, 512] [16, 16]]
    \<and> in_flight (takeWhile (\<lambda>e. e \<noteq> Call (clEnqueueReadBuffer MC True 1048576))
          (fst (main libc env))) = [clEnqueueNDRangeKernel 2 [512, 512] [16, 16]]
    \<and> in_flight (until_call (clEnqueueReadBuffer MC True 1048576) (fst (main libc env))) = []
    \<and> in_flight (fst (main libc env)) = []"
  unfolding main_success [OF assms] fst_conv
  using enqueue_calls_normal [of libc] in_flight_points [of libc] in_flight_normal [of libc]
  by simp

theorem transfers_block_launch_does_not_witness:
  "in_flight (until_call (clEnqueueWriteBuffer MA True 1048576) (fst (main sample_libc ok_env))) = []
   \<and> in_flight (until_call (clEnqueueReadBuffer MC True 1048576) (fst (main sample_libc ok_env))) = []
   \<and> in_flight (fst (main sample_libc ok_env)) = []"
  using transfers_block_launch_does_not [OF ok_env_succeeds, of sample_libc] by simp

text \<open>
  The claim C4 fails for the kernel launch: when the call that enqueues it has
  returned, and when the host issues the next call, the launch is in flight.
\<close>

theorem launch_not_awaited:
  "in_flight (until_call (clEnqueueNDRangeKernel 2 [512, 512] [16, 16])
      (fst (main sample_libc ok_env))) \<noteq> []
   \<and> in_flight (takeWhile (\<lambda>e. e \<noteq> Call (clEnqueueReadBuffer MC True 1048576))
      (fst (main sample_libc ok_env))) \<noteq> []"
  unfolding main_success [OF ok_env_succeeds] fst_conv in_flight_points by simp

lemma checks_same: "status env1 = status env2 \<Longrightarrow> checks env1 cs r = checks env2 cs r"
  by (induction cs) (simp_all add: checks_step)

lemma main_same:
  assumes "status env1 = status env2" "build_log env1 = build_log env2"
  shows "main libc env1 = main libc env2"
  unfolding main_checks build_step_def build_info_buffer_def
  by (simp add: checks_same [OF assms(1)] assms)

text \<open>
  C3, amended. The program never seeds the generator, so every execution starts
  \<^verbatim>\<open>rand\<close> in the state \<^verbatim>\<open>srand(1)\<close> sets: the matrices \<open>A\<close> and \<open>B\<close> it fills and
  the result of the device are the same in every run, whatever the memory held
  before and whatever the modes in which the device computes, and two executions in which the API calls return the same statuses and the
  same build log are the same run, as far as its behaviour is defined; in particular
  they print the same matrix.
\<close>

theorem runs_are_reproducible:
  "initialise libc env1 = initialise libc env2
   \<and> device_result libc env1 = device_result libc env2
   \<and> (status env1 = status env2 \<and> build_log env1 = build_log env2 \<longrightarrow>
        main libc env1 = main libc env2
      \<and> stdout_of (fst (main libc env1)) = stdout_of (fst (main libc env2)))"
  using main_same [of env1 env2 libc]
  by (simp add: initialise_eq device_result_eq)

theorem runs_are_reproducible_witness:
  "initialise sample_libc ok_env = initialise sample_libc noisy_env
   \<and> main sample_libc ok_env = main sample_libc noisy_env"
  using runs_are_reproducible [of sample_libc ok_env noisy_env]
  by (simp add: noisy_env_def)

text \<open>
  The claim C3 fails: two executions with the same responses of the API print the
  same text, also when the memory they start from differs.
\<close>

theorem output_is_reproducible:
  "\<not> stdout_of (fst (main sample_libc ok_env)) \<noteq> stdout_of (fst (main sample_libc ok_env))
   \<and> \<not> stdout_of (fst (main sample_libc ok_env)) \<noteq> stdout_of (fst (main sample_libc noisy_env))"
proof -
  have "main sample_libc ok_env = main sample_libc noisy_env"
    by (rule main_same) (simp_all add: noisy_env_def)
  then show ?thesis by simp
qed

section \<open>The model at work\<close>

text \<open>
  Values the definitions compute: the rounding on numbers that are not binary32
  numbers (one tenth, a tie, a neighbour of a tie, the overflow threshold), two steps
  of the accumulation whose results depend on the mode of the device, a launch over a
  \<open>2 \<times> 2\<close> index space, a work-item whose index arithmetic overflows, and the first pass of the
  initialisation loop with the example generator.
\<close>

lemma round32_examples:
  "round32 (1 / 10) = Finite (13421773 / 134217728)"
  "round32 16777217 = Finite 16777216"
  "round32 16777219 = Finite 16777220"
  "round32 (2 ^ 128) = PInf"
  by code_simp+

lemma contraction_example:
  "mac ieee (Finite (- 1)) (Finite (8388609 / 8388608)) (Finite (8388607 / 8388608)) = Finite 0"
  "mac contracted (Finite (- 1)) (Finite (8388609 / 8388608)) (Finite (8388607 / 8388608)) =
     Finite (- 1 / 70368744177664)"
  by code_simp+

lemma flush_example:
  "mac ieee (Finite 0) (Finite (1 / 2 ^ 70)) (Finite (1 / 2 ^ 70)) = Finite (1 / 2 ^ 140)"
  "mac \<lparr>fuses = False, flushes_in = False, flushes_out = True\<rparr>
     (Finite 0) (Finite (1 / 2 ^ 70)) (Finite (1 / 2 ^ 70)) = Finite 0"
  "mac \<lparr>fuses = True, flushes_in = True, flushes_out = False\<rparr>
     (Finite 0) (Finite (1 / 2 ^ 130)) (Finite (2 ^ 100)) = Finite 0"
  by code_simp+

lemma run_items_2x2:
  "run_items (\<lambda>g k. if k = 0 then contracted else ieee) [Finite 1, Finite 2, Finite 3, Finite 4]
     [Finite 5, Finite 6, Finite 7, Finite 8] 2 (global_ids 2 2) ([NaN, NaN, NaN, NaN], []) =
   Some ([Finite 19, Finite 22, Finite 43, Finite 50], [0, 1, 2, 3])"
  by code_simp

lemma overflow_undefined: "matmul mode [] [] 65536 (0, 40000) = None"
  apply (simp add: matmul_def int32_def INT_MAX_def)
  apply (subst matmul_loop.simps)
  apply (simp add: imul_def int32_def INT_MAX_def)
  done

lemma f32_of_int_small: "f32_of_int (numeral k) = Finite (numeral k)" if "numeral k < (16777216::nat)"
  using f32_of_int_nat [OF that] by simp

lemma sample_rand_values:
  "sample_rand (Suc 0) = (16838, 1103527590)"
  "sample_rand 1103527590 = (5758, 2524885223)"
  by (simp_all add: sample_rand_def Let_def)

lemma fill_loop_sample:
  "fill_loop sample_rand 1 0 1 [NaN] [PInf] = ([Finite 38], [Finite 58], 2524885223)"
  apply (subst fill_loop.simps)
  apply (simp add: sample_rand_values signed_modulo_int_def f32_of_int_small fill_loop.simps)
  done

end
